theory Spec2Isabelle
  imports Complex_Main "HOL-Library.Product_Lexorder"
begin

section \<open>Data model\<close>

text \<open>
  The rotation tool works on Python floats. They are modelled as \<^typ>\<open>real\<close>:
  exact arithmetic, the same order, \<open>max\<close> and \<open>min\<close>. The properties below are about
  the order and the structure of the computed lists. The one loop whose property depends
  on how sums are rounded, the sanitising loop of \<^verbatim>\<open>apply_boundaries\<close>, takes the
  rounding of its arithmetic as a parameter.

  Source: \<^verbatim>\<open>data_model.py\<close> (\<^verbatim>\<open>Stint\<close>, \<^verbatim>\<open>Player\<close>, \<^verbatim>\<open>Team\<close>) and
  \<^verbatim>\<open>state_manager.py\<close> (\<^verbatim>\<open>Archetype\<close>, \<^verbatim>\<open>Config\<close>). Field names that
  would clash with each other or with HOL constants carry a prefix.
\<close>

record Stint =
  start_min :: real
  end_min :: real

record Player =
  player_id :: string
  player_name :: string
  team :: string
  archetype_id :: "string option"
  expected_minutes :: real
  closer_weighting :: real
  stddev_scaler :: real
  stints_raw :: "real list"
  stints :: "Stint list"

record Team =
  team_name :: string
  players :: "Player list"

record Archetype =
  arch_id :: string
  arch_name :: string
  starter :: bool
  stint_pattern :: "string list"

record Config =
  archetypes :: "string \<rightharpoonup> Archetype"

text \<open>A segment is the Python tuple \<open>(start_min, end_min, tag)\<close>.\<close>

type_synonym segment = "real \<times> real \<times> string"

definition seg_start :: "segment \<Rightarrow> real" where
  "seg_start sg = fst sg"

definition seg_end :: "segment \<Rightarrow> real" where
  "seg_end sg = fst (snd sg)"

definition seg_tag :: "segment \<Rightarrow> string" where
  "seg_tag sg = snd (snd sg)"

section \<open>The archetype catalog\<close>

text \<open>The table \<^verbatim>\<open>ARCHETYPES["archetypes"]\<close> of \<^verbatim>\<open>archetypes.py\<close>, in its order.\<close>

definition ARCHETYPES :: "Archetype list" where
  "ARCHETYPES =
    [\<lparr>arch_id = ''StarterCloserThreeStints'',
      arch_name = ''Starter, 3 on-stints, closer-capable'', starter = True,
      stint_pattern = [''on'', ''off'', ''on'', ''off'', ''on'']\<rparr>,
     \<lparr>arch_id = ''StarterCloserFourStints'',
      arch_name = ''Starter, 4 on-stints, closer-capable'', starter = True,
      stint_pattern = [''on'', ''off'', ''on'', ''off'', ''on'', ''off'', ''on'']\<rparr>,
     \<lparr>arch_id = ''StarterCloserFiveStints'',
      arch_name = ''Starter, 5 on-stints, closer-capable'', starter = True,
      stint_pattern =
        [''on'', ''off'', ''on'', ''off'', ''on'', ''off'', ''on'', ''off'', ''on'']\<rparr>,
     \<lparr>arch_id = ''NonStarterNonCloserOneStint'',
      arch_name = ''Bench, single on-stint, non-closer'', starter = False,
      stint_pattern = [''off'', ''on'', ''off'']\<rparr>,
     \<lparr>arch_id = ''NonStarterNonCloserTwoStints'',
      arch_name = ''Bench, 2 on-stints, non-closer'', starter = False,
      stint_pattern = [''off'', ''on'', ''off'', ''on'', ''off'']\<rparr>,
     \<lparr>arch_id = ''NonStarterNonCloserThreeStints'',
      arch_name = ''Bench, 3 on-stints, non-closer'', starter = False,
      stint_pattern = [''off'', ''on'', ''off'', ''on'', ''off'', ''on'', ''off'']\<rparr>,
     \<lparr>arch_id = ''NonStarterCloserThreeStints'',
      arch_name = ''Bench, 3 on-stints, closer-capable'', starter = False,
      stint_pattern = [''off'', ''on'', ''off'', ''on'', ''off'', ''on'']\<rparr>,
     \<lparr>arch_id = ''NonStarterCloserFourStints'',
      arch_name = ''Bench, 4 on-stints, closer-capable'', starter = False,
      stint_pattern =
        [''off'', ''on'', ''off'', ''on'', ''off'', ''on'', ''off'', ''on'']\<rparr>,
     \<lparr>arch_id = ''GarbageTime'',
      arch_name = ''Garbage Time (does not play)'', starter = False,
      stint_pattern = [''off'']\<rparr>,
     \<lparr>arch_id = ''Star'',
      arch_name = ''Star (special rule must sub off at 12 and 36 min)'', starter = True,
      stint_pattern = [''on'', ''off'', ''on'', ''off'', ''on'']\<rparr>]"

text \<open>
  \<^verbatim>\<open>get_config\<close>: the loop \<^verbatim>\<open>arch_map[arch.id] = arch\<close> over the table, from the
  empty dictionary; a later entry with the same id would replace an earlier one.
\<close>

definition get_config :: Config where
  "get_config =
     \<lparr>archetypes = fold (\<lambda>item arch_map. arch_map(arch_id item \<mapsto> item)) ARCHETYPES Map.empty\<rparr>"

section \<open>Segment computation\<close>

text \<open>
  \<^verbatim>\<open>split_on_off_indices\<close>: the positions of the pattern tagged \<open>on\<close>, and the others,
  each in increasing order; two empty lists for an unknown id.
\<close>

definition split_on_off_indices :: "string \<Rightarrow> nat list \<times> nat list" where
  "split_on_off_indices aid =
     (case archetypes get_config aid of
        None \<Rightarrow> ([], [])
      | Some arch \<Rightarrow>
          fold (\<lambda>(i, tag) (on_idx, off_idx).
                  if tag = ''on'' then (on_idx @ [i], off_idx) else (on_idx, off_idx @ [i]))
               (enumerate 0 (stint_pattern arch)) ([], []))"

text \<open>
  \<^verbatim>\<open>_ensure_default_percentages\<close>: pad \<open>stints_raw\<close> with zeros up to the pattern
  length (\<open>L - len\<close> is a truncated difference, as \<^verbatim>\<open>max(0, L - len(...))\<close>), give a
  group whose weights sum to exactly 0 equal shares, and cut to length \<open>L\<close>. The
  test \<^verbatim>\<open>not player.archetype_id\<close> holds for \<open>None\<close> and for the empty string.
\<close>

definition ensure_default_percentages :: "Player \<Rightarrow> real list" where
  "ensure_default_percentages player =
     (case archetype_id player of
        None \<Rightarrow> stints_raw player
      | Some aid \<Rightarrow>
          if aid = [] then stints_raw player
          else (case archetypes get_config aid of
                  None \<Rightarrow> stints_raw player
                | Some arch \<Rightarrow>
                    (let L = length (stint_pattern arch);
                         raw = stints_raw player @ replicate (L - length (stints_raw player)) 0;
                         (on_idx, off_idx) = split_on_off_indices aid;
                         on_sum = sum_list (map (\<lambda>i. raw ! i) on_idx);
                         off_sum = sum_list (map (\<lambda>i. raw ! i) off_idx);
                         raw = (if on_idx \<noteq> [] \<and> on_sum = 0
                                then fold (\<lambda>i r. r[i := 1 / real (length on_idx)]) on_idx raw
                                else raw);
                         raw = (if off_idx \<noteq> [] \<and> off_sum = 0
                                then fold (\<lambda>i r. r[i := 1 / real (length off_idx)]) off_idx raw
                                else raw)
                     in take L raw)))"

text \<open>
  The first loop of \<^verbatim>\<open>compute_segments\<close>: the duration of each stint, in pattern
  order. A position beyond \<open>raw\<close> has weight 0.
\<close>

definition stint_durations :: "string list \<Rightarrow> real list \<Rightarrow> real \<Rightarrow> real \<Rightarrow> real list" where
  "stint_durations pattern raw on_total off_total =
     map (\<lambda>(i, tag).
            (let pct = (if i < length raw then raw ! i else 0)
             in if tag = ''on'' then (if on_total > 0 then pct * on_total else 0)
                else (if off_total > 0 then pct * off_total else 0)))
         (enumerate 0 pattern)"

text \<open>
  The second loop: accumulate the durations from the running time \<open>t\<close>, each duration
  floored at 0 and each end capped at 48. \<open>durations\<close> has one entry per pattern
  position, so the loop over \<^verbatim>\<open>enumerate(arch.stint_pattern)\<close> reading
  \<^verbatim>\<open>durations[i]\<close> is a loop over the two lists side by side.
\<close>

fun accumulate :: "real \<Rightarrow> (real \<times> string) list \<Rightarrow> segment list" where
  "accumulate t [] = []"
| "accumulate t ((dur, tag) # rest) =
     (let d = max 0 dur; start = t; end' = min 48 (start + d)
      in (start, end', tag) # accumulate end' rest)"

text \<open>The drift guard: the last segment's end is overwritten with 48.\<close>

definition force_last_end :: "segment list \<Rightarrow> segment list" where
  "force_last_end segs =
     (if segs = [] then segs
      else segs[length segs - 1 := (seg_start (last segs), 48, seg_tag (last segs))])"

definition compute_segments :: "Player \<Rightarrow> segment list" where
  "compute_segments player =
     (case archetype_id player of
        None \<Rightarrow> []
      | Some aid \<Rightarrow>
          if aid = [] then []
          else (case archetypes get_config aid of
                  None \<Rightarrow> []
                | Some arch \<Rightarrow>
                    (let raw = ensure_default_percentages player;
                         em = (if expected_minutes player = 0 then 0 else expected_minutes player);
                         on_total = max 0 (min 48 em);
                         off_total = max 0 (48 - on_total);
                         durations = stint_durations (stint_pattern arch) raw on_total off_total;
                         segs = accumulate 0 (zip durations (stint_pattern arch))
                     in force_last_end segs)))"

section \<open>Boundary editing\<close>

text \<open>
  The loop of \<^verbatim>\<open>compute_default_boundaries\<close>: each end is capped at 48 and pushed
  to at least 0.001 after the previous value.
\<close>

fun increasing_ends :: "real \<Rightarrow> real list \<Rightarrow> real list" where
  "increasing_ends last_v [] = []"
| "increasing_ends last_v (e # ends) =
     (let val = max (last_v + 1 / 1000) (min 48 e) in val # increasing_ends val ends)"

definition compute_default_boundaries :: "Player \<Rightarrow> real list" where
  "compute_default_boundaries player =
     (let segs = compute_segments player
      in if segs = [] then []
         else increasing_ends 0 (map (\<lambda>(_, e, _). e) (butlast segs)))"

text \<open>
  One round of the sanitising loop of \<^verbatim>\<open>apply_boundaries\<close>, for the index \<open>k\<close> of
  \<^verbatim>\<open>range(L - 1)\<close>; the state is \<open>(out_ends, last)\<close>. The integer
  \<^verbatim>\<open>L - 1 - (k + 1)\<close> is computed in \<^typ>\<open>int\<close>. A float operation returns the
  rounding of the exact result: \<open>rnd\<close> is that rounding, applied to the sum
  \<^verbatim>\<open>last + min_gap\<close>, to the product and to the difference from 48. With the identity
  for \<open>rnd\<close> the loop computes in exact arithmetic.
\<close>

definition sanitize_step ::
  "(real \<Rightarrow> real) \<Rightarrow> nat \<Rightarrow> real list \<Rightarrow> real \<Rightarrow> nat \<Rightarrow> real list \<times> real
     \<Rightarrow> real list \<times> real" where
  "sanitize_step rnd L ends min_gap k st =
     (case st of (out_ends, last_v) \<Rightarrow>
        (let raw = (if k < length ends then ends ! k else rnd (last_v + min_gap));
             val = max (rnd (last_v + min_gap))
                       (min (rnd (48 - rnd (real_of_int (int L - 1 - (int k + 1)) * min_gap))) raw)
         in (out_ends @ [val], val)))"

definition sanitize_ends :: "(real \<Rightarrow> real) \<Rightarrow> nat \<Rightarrow> real list \<Rightarrow> real \<Rightarrow> real list" where
  "sanitize_ends rnd L ends min_gap =
     fst (fold (sanitize_step rnd L (take (L - 1) ends) min_gap) [0..<L - 1] ([], 0))"

text \<open>
  The loop that rebuilds the segments from the boundaries; the state is
  \<open>(seg_starts, seg_ends, t)\<close>. The final segment, up to 48, is added after it.
\<close>

definition boundary_segments :: "real list \<Rightarrow> real list \<times> real list" where
  "boundary_segments out_ends =
     (case fold (\<lambda>e (seg_starts, seg_ends, t). (seg_starts @ [t], seg_ends @ [e], e))
                out_ends ([], [], 0) of
        (seg_starts, seg_ends, t) \<Rightarrow> (seg_starts @ [t], seg_ends @ [48]))"

text \<open>
  \<^verbatim>\<open>apply_boundaries\<close> mutates the player; the model returns the updated player.
  Every early \<^verbatim>\<open>return\<close> gives the player back as it came. Like the rest of the
  model it computes in exact arithmetic: the sanitising loop runs with the identity as
  its rounding.
\<close>

definition apply_boundaries :: "Player \<Rightarrow> real list \<Rightarrow> real \<Rightarrow> Player" where
  "apply_boundaries player ends min_gap =
     (case archetype_id player of
        None \<Rightarrow> player
      | Some aid \<Rightarrow>
          if aid = [] then player
          else (case archetypes get_config aid of
                  None \<Rightarrow> player
                | Some arch \<Rightarrow>
                    (let L = length (stint_pattern arch)
                     in if L \<le> 0 then player
                        else
                          (let out_ends = sanitize_ends (\<lambda>x. x) L ends min_gap;
                               (seg_starts, seg_ends) = boundary_segments out_ends;
                               durations =
                                 map (\<lambda>i. max 0 (seg_ends ! i - seg_starts ! i)) [0..<L];
                               (on_idx, off_idx) = split_on_off_indices aid;
                               on_total = sum_list (map (\<lambda>i. durations ! i) on_idx);
                               off_total = sum_list (map (\<lambda>i. durations ! i) off_idx);
                               raw = replicate L 0;
                               raw = fold (\<lambda>i r. r[i := (if on_total > 0
                                                           then durations ! i / on_total else 0)])
                                          on_idx raw;
                               raw = fold (\<lambda>i r. r[i := (if off_total > 0
                                                           then durations ! i / off_total else 0)])
                                          off_idx raw
                           in player\<lparr>expected_minutes := max 0 (min 48 on_total),
                                     stints_raw := raw\<rparr>))))"

section \<open>Team occupancy\<close>

datatype error = IndexError

text \<open>
  \<^verbatim>\<open>math.isclose(a, b)\<close> with its defaults \<open>rel_tol = 1e-09\<close> and \<open>abs_tol = 0.0\<close>, on
  finite numbers.
\<close>

definition isclose :: "real \<Rightarrow> real \<Rightarrow> bool" where
  "isclose a b =
     (a = b \<or> \<bar>b - a\<bar> \<le> \<bar>1 / 1000000000 * b\<bar> \<or> \<bar>b - a\<bar> \<le> \<bar>1 / 1000000000 * a\<bar>
      \<or> \<bar>b - a\<bar> \<le> 0)"

text \<open>The events of one player: \<open>(start, +1)\<close> and \<open>(end, -1)\<close> for each \<open>on\<close> segment
  of positive length, both times clamped into [0, 48].\<close>

definition player_events :: "Player \<Rightarrow> (real \<times> int) list" where
  "player_events p =
     concat (map (\<lambda>(s, e, tag).
                    if tag = ''on'' \<and> e > s
                    then [(max 0 (min 48 s), 1), (max 0 (min 48 e), - 1)]
                    else [])
                 (compute_segments p))"

definition team_events :: "Team \<Rightarrow> (real \<times> int) list" where
  "team_events team_v = concat (map player_events (players team_v)) @ [(0, 0), (48, 0)]"

text \<open>\<^verbatim>\<open>events.sort(key=lambda x: (x[0], x[1]))\<close>: a stable sort on the pair, compared
  lexicographically.\<close>

definition sorted_events :: "Team \<Rightarrow> (real \<times> int) list" where
  "sorted_events team_v = sort_key (\<lambda>x. (fst x, snd x)) (team_events team_v)"

text \<open>One round of the walk over the sorted events; the state is
  \<open>(xs, ys, cur, last_t)\<close>.\<close>

definition walk_step ::
  "real \<times> int \<Rightarrow> real list \<times> int list \<times> int \<times> real \<Rightarrow> real list \<times> int list \<times> int \<times> real" where
  "walk_step ev st =
     (case ev of (t, d) \<Rightarrow>
      (case st of (xs, ys, cur, last_t) \<Rightarrow>
        (let (xs, ys) = (if xs = [] then (xs @ [last_t], ys @ [cur]) else (xs, ys));
             (xs, ys, last_t) =
               (if t \<noteq> last_t then (xs @ [t], ys @ [cur], t) else (xs, ys, last_t));
             cur = cur + d
         in (xs @ [t], ys @ [cur], cur, last_t))))"

definition walk :: "(real \<times> int) list \<Rightarrow> real list \<times> int list \<times> int \<times> real" where
  "walk events = fold walk_step events ([], [], 0, 0)"

text \<open>One round of the loop that drops a point equal to the last one kept; the state
  is \<open>(out_x, out_y)\<close>, never empty.\<close>

definition tidy_step ::
  "real list \<Rightarrow> int list \<Rightarrow> nat \<Rightarrow> real list \<times> int list \<Rightarrow> real list \<times> int list" where
  "tidy_step xs ys i st =
     (case st of (out_x, out_y) \<Rightarrow>
        if \<not> (isclose (xs ! i) (last out_x) \<and> ys ! i = last out_y)
        then (out_x @ [xs ! i], out_y @ [ys ! i])
        else (out_x, out_y))"

text \<open>
  \<^verbatim>\<open>team_oncourt_steps\<close>. Reading \<^verbatim>\<open>xs[0]\<close> raises \<open>IndexError\<close> on an empty
  list; the model returns the error as a value.
\<close>

definition team_oncourt_steps :: "Team \<Rightarrow> error + (real list \<times> int list)" where
  "team_oncourt_steps team_v =
     (case walk (sorted_events team_v) of (xs, ys, cur, last_t) \<Rightarrow>
        if xs = [] \<or> ys = [] then Inl IndexError
        else
          (case fold (tidy_step xs ys) [1..<length xs] ([xs ! 0], [ys ! 0]) of
             (out_x, out_y) \<Rightarrow>
               if last out_x \<noteq> 48 then Inr (out_x @ [48], out_y @ [last out_y])
               else Inr (out_x, out_y)))"

section \<open>Notions used to state the properties\<close>

text \<open>
  The archetype that the guards at the head of every operation resolve: none when
  \<open>archetype_id\<close> is \<open>None\<close> or empty, or is not a key of the catalog.
\<close>

definition resolved_archetype :: "Player \<Rightarrow> Archetype option" where
  "resolved_archetype player =
     (case archetype_id player of
        None \<Rightarrow> None
      | Some aid \<Rightarrow> if aid = [] then None else archetypes get_config aid)"

text \<open>
  A list of segments is a chain from \<open>t\<close> when the first starts at \<open>t\<close>, each starts where
  the previous one ends, and none ends before it starts or after minute 48.
\<close>

fun chain :: "real \<Rightarrow> segment list \<Rightarrow> bool" where
  "chain t [] = True"
| "chain t (sg # rest) =
     (seg_start sg = t \<and> t \<le> seg_end sg \<and> seg_end sg \<le> 48 \<and> chain (seg_end sg) rest)"

text \<open>Players and teams for the worked examples, and the catalog entries they use.\<close>

definition example_player :: "string option \<Rightarrow> real \<Rightarrow> real list \<Rightarrow> Player" where
  "example_player aid em raw =
     \<lparr>player_id = ''p1'', player_name = ''Player 1'', team = ''Home'', archetype_id = aid,
      expected_minutes = em, closer_weighting = 0, stddev_scaler = 1, stints_raw = raw,
      stints = []\<rparr>"

definition three_stints :: Archetype where
  "three_stints = \<lparr>arch_id = ''StarterCloserThreeStints'',
      arch_name = ''Starter, 3 on-stints, closer-capable'', starter = True,
      stint_pattern = [''on'', ''off'', ''on'', ''off'', ''on'']\<rparr>"

definition example_team :: "Player list \<Rightarrow> Team" where
  "example_team ps = \<lparr>team_name = ''Home'', players = ps\<rparr>"

text \<open>
  The state \<open>(out_ends, last)\<close> of the sanitising loop after \<open>n\<close> rounds, and the
  value before position \<open>k\<close> of a boundary list (0 before the first).
\<close>

definition sanitize_state ::
  "(real \<Rightarrow> real) \<Rightarrow> nat \<Rightarrow> real list \<Rightarrow> real \<Rightarrow> nat \<Rightarrow> real list \<times> real" where
  "sanitize_state rnd L es g n = fold (sanitize_step rnd L es g) [0..<n] ([], 0)"

text \<open>
  What the loop needs of a rounding: it is monotone and it leaves its own results as
  they are. Rounding to the nearest float is such a function. The upper bound of round
  \<open>k\<close> is the float the code computes for \<open>48 - (L - 2 - k) * min_gap\<close>.
\<close>

definition rounding :: "(real \<Rightarrow> real) \<Rightarrow> bool" where
  "rounding rnd = ((\<forall>x y. x \<le> y \<longrightarrow> rnd x \<le> rnd y) \<and> (\<forall>x. rnd (rnd x) = rnd x))"

definition upper_bound :: "(real \<Rightarrow> real) \<Rightarrow> nat \<Rightarrow> real \<Rightarrow> nat \<Rightarrow> real" where
  "upper_bound rnd L min_gap k = rnd (48 - rnd (real_of_int (int L - 2 - int k) * min_gap))"

text \<open>
  A rounding with the shape of floating point on a small scale: exact below 1, whole
  numbers from 1 on. Adding one half to 12 gives 12 again.
\<close>

definition coarse :: "real \<Rightarrow> real" where
  "coarse x = (if \<bar>x\<bar> < 1 then x else of_int \<lfloor>x\<rfloor>)"

definition prev_end :: "real list \<Rightarrow> nat \<Rightarrow> real" where
  "prev_end out k = (if k = 0 then 0 else out ! (k - 1))"

definition garbage_time :: Archetype where
  "garbage_time = \<lparr>arch_id = ''GarbageTime'', arch_name = ''Garbage Time (does not play)'',
      starter = False, stint_pattern = [''off'']\<rparr>"

text \<open>
  The points the walk appends, as a recursive function of the remaining events:
  \<open>first\<close> says that no point has been appended yet, \<open>cur\<close> and \<open>lt\<close> are the running
  count and the last time. Lemma \<open>fold_walk_step\<close> shows that the loop computes it.
\<close>

fun emit :: "bool \<Rightarrow> int \<Rightarrow> real \<Rightarrow> (real \<times> int) list \<Rightarrow> (real \<times> int) list" where
  "emit first cur lt [] = []"
| "emit first cur lt ((t, d) # es) =
     (if first then [(lt, cur)] else []) @ (if t \<noteq> lt then [(t, cur)] else []) @
     [(t, cur + d)] @ emit False (cur + d) t es"

text \<open>
  The points the tidying loop keeps after the point \<open>kept\<close>, and the final point at 48.
  Lemma \<open>team_oncourt_steps_points\<close> shows that the code computes them.
\<close>

fun tidy :: "real \<times> int \<Rightarrow> (real \<times> int) list \<Rightarrow> (real \<times> int) list" where
  "tidy kept [] = []"
| "tidy kept (p # ps) =
     (if \<not> (isclose (fst p) (fst kept) \<and> snd p = snd kept) then p # tidy p ps
      else tidy kept ps)"

definition close_domain :: "(real \<times> int) list \<Rightarrow> (real \<times> int) list" where
  "close_domain ps = (if fst (last ps) \<noteq> 48 then ps @ [(48, snd (last ps))] else ps)"

text \<open>
  The sum of the deltas of a list of events; a list is balanced when the events below
  any threshold, strictly or not, have a non-negative sum.
\<close>

definition deltas :: "(real \<times> int) list \<Rightarrow> int" where
  "deltas es = sum_list (map snd es)"

definition balanced :: "(real \<times> int) list \<Rightarrow> bool" where
  "balanced es =
     (\<forall>x. 0 \<le> deltas (filter (\<lambda>y. y < x) es) \<and> 0 \<le> deltas (filter (\<lambda>y. y \<le> x) es))"

text \<open>
  The value of the walk's running total \<open>curr\<close> once the first \<open>m\<close> events have been
  processed.
\<close>

definition running_count :: "(real \<times> int) list \<Rightarrow> nat \<Rightarrow> int" where
  "running_count events m = (case walk (take m events) of (xs, ys, cur, last_t) \<Rightarrow> cur)"

text \<open>
  The positions of the events at time \<open>t\<close> in a list sorted by time run from
  \<open>group_start\<close>, the number of earlier events, up to but not including \<open>group_end\<close>.
\<close>

definition group_start :: "(real \<times> int) list \<Rightarrow> real \<Rightarrow> nat" where
  "group_start events t = length (filter (\<lambda>e. fst e < t) events)"

definition group_end :: "(real \<times> int) list \<Rightarrow> real \<Rightarrow> nat" where
  "group_end events t = length (filter (\<lambda>e. fst e \<le> t) events)"

text \<open>
  Two players: the first enters the court at minute 20, the second leaves it at minute
  20. Before the sort the \<open>+1\<close> of the first comes before the \<open>-1\<close> of the second.
\<close>

definition tie_team :: Team where
  "tie_team = example_team
     [example_player (Some ''NonStarterNonCloserOneStint'') 10 [10 / 19, 1, 9 / 19],
      example_player (Some ''StarterCloserThreeStints'') 40 [1 / 2, 1 / 2, 1 / 4, 1 / 2, 1 / 4]]"

text \<open>
  The points \<open>(xs[i], ys[i])\<close> the walk has built, before the tidying loop, and those
  of a list of points that lie at time \<open>t\<close>.
\<close>

definition walk_points :: "(real \<times> int) list \<Rightarrow> (real \<times> int) list" where
  "walk_points events = (case walk events of (xs, ys, cur, last_t) \<Rightarrow> zip xs ys)"

definition points_at :: "real \<Rightarrow> (real \<times> int) list \<Rightarrow> (real \<times> int) list" where
  "points_at t ps = filter (\<lambda>p. fst p = t) ps"

text \<open>
  Two players who both start on the court at minute 0.
\<close>

definition two_on_team :: Team where
  "two_on_team = example_team
     [example_player (Some ''StarterCloserThreeStints'') 30 [],
      example_player (Some ''StarterCloserThreeStints'') 30 []]"

text \<open>
  The length of a segment, and the end of the last segment of a chain that starts at \<open>t\<close>.
\<close>

definition seg_dur :: "segment \<Rightarrow> real" where
  "seg_dur sg = seg_end sg - seg_start sg"

definition chain_end :: "real \<Rightarrow> segment list \<Rightarrow> real" where
  "chain_end t segs = (if segs = [] then t else seg_end (last segs))"

text \<open>
  The two index lists \<open>split_on_off_indices\<close> returns for a pattern (lemma
  \<open>split_on_off_indices_resolved\<close>).
\<close>

definition on_indices :: "string list \<Rightarrow> nat list" where
  "on_indices pattern = map fst (filter (\<lambda>p. snd p = ''on'') (enumerate 0 pattern))"

definition off_indices :: "string list \<Rightarrow> nat list" where
  "off_indices pattern = map fst (filter (\<lambda>p. snd p \<noteq> ''on'') (enumerate 0 pattern))"

text \<open>
  The total of the durations \<open>ds\<close> over a group of indices, and the weights
  \<open>apply_boundaries\<close> writes back: each duration over the total of its group, 0 when
  that total is 0 (lemma \<open>apply_boundaries_resolved\<close>).
\<close>

definition group_total :: "nat list \<Rightarrow> real list \<Rightarrow> real" where
  "group_total idx ds = sum_list (map (\<lambda>i. ds ! i) idx)"

definition reweigh :: "string list \<Rightarrow> real list \<Rightarrow> real list" where
  "reweigh pattern ds =
     fold (\<lambda>i r. r[i := (if group_total (off_indices pattern) ds > 0
                          then ds ! i / group_total (off_indices pattern) ds else 0)])
       (off_indices pattern)
       (fold (\<lambda>i r. r[i := (if group_total (on_indices pattern) ds > 0
                            then ds ! i / group_total (on_indices pattern) ds else 0)])
         (on_indices pattern)
         (replicate (length pattern) 0))"

section \<open>Segments cover the game\<close>

lemma fold_upd_lookup:
  "fold (\<lambda>item m. m(f item \<mapsto> item)) xs m0 k = Some v \<Longrightarrow> v \<in> set xs \<or> m0 k = Some v"
proof (induction xs arbitrary: m0)
  case Nil
  then show ?case by simp
next
  case (Cons a xs)
  from Cons.prems have "fold (\<lambda>item m. m(f item \<mapsto> item)) xs (m0(f a \<mapsto> a)) k = Some v"
    by (simp only: fold.simps o_apply)
  from Cons.IH [OF this] show ?case by (auto split: if_splits)
qed

lemma get_config_in_table:
  "archetypes get_config aid = Some arch \<Longrightarrow> arch \<in> set ARCHETYPES"
  using fold_upd_lookup [of arch_id ARCHETYPES Map.empty aid arch]
  by (simp add: get_config_def)

lemma table_patterns_nonempty: "arch \<in> set ARCHETYPES \<Longrightarrow> stint_pattern arch \<noteq> []"
  by (auto simp: ARCHETYPES_def)

lemma resolved_pattern_nonempty:
  "resolved_archetype player = Some arch \<Longrightarrow> stint_pattern arch \<noteq> []"
  by (auto simp: resolved_archetype_def split: option.splits if_splits
      dest!: get_config_in_table table_patterns_nonempty)

lemma accumulate_Cons:
  "accumulate t ((dur, tag) # rest) =
     (t, min 48 (t + max 0 dur), tag) # accumulate (min 48 (t + max 0 dur)) rest"
  by (simp add: Let_def)

declare accumulate.simps(2) [simp del]
declare accumulate_Cons [simp]

lemma length_accumulate: "length (accumulate t ds) = length ds"
  by (induction ds arbitrary: t) (auto simp: Let_def)

lemma tags_accumulate: "map seg_tag (accumulate t ds) = map snd ds"
  by (induction ds arbitrary: t) (auto simp: Let_def seg_tag_def)

lemma chain_accumulate: "t \<le> 48 \<Longrightarrow> chain t (accumulate t ds)"
  by (induction ds arbitrary: t) (auto simp: Let_def seg_start_def seg_end_def)

lemma force_last_end_single: "force_last_end [sg] = [(seg_start sg, 48, seg_tag sg)]"
  by (simp add: force_last_end_def)

lemma force_last_end_Cons: "force_last_end (x # y # r) = x # force_last_end (y # r)"
  by (simp add: force_last_end_def)

lemma length_force_last_end: "length (force_last_end segs) = length segs"
  by (simp add: force_last_end_def)

lemma tags_force_last_end: "map seg_tag (force_last_end segs) = map seg_tag segs"
proof (induction segs rule: induct_list012)
  case 1 show ?case by (simp add: force_last_end_def)
next
  case (2 x) show ?case by (simp add: force_last_end_single seg_tag_def)
next
  case (3 x y zs) then show ?case by (simp add: force_last_end_Cons)
qed

lemma chain_force_last_end: "chain t segs \<Longrightarrow> t \<le> 48 \<Longrightarrow> chain t (force_last_end segs)"
proof (induction segs arbitrary: t rule: induct_list012)
  case 1 show ?case by (simp add: force_last_end_def)
next
  case (2 x) then show ?case by (simp add: force_last_end_single seg_start_def seg_end_def)
next
  case (3 x y zs) then show ?case by (simp add: force_last_end_Cons)
qed

lemma last_force_last_end: "segs \<noteq> [] \<Longrightarrow> seg_end (last (force_last_end segs)) = 48"
  by (simp add: force_last_end_def last_list_update seg_end_def)

lemma chain_nth:
  "chain t segs \<Longrightarrow> i < length segs \<Longrightarrow>
     t \<le> seg_start (segs ! i) \<and> seg_start (segs ! i) \<le> seg_end (segs ! i) \<and> seg_end (segs ! i) \<le> 48"
proof (induction segs arbitrary: t i)
  case Nil then show ?case by simp
next
  case (Cons sg rest)
  show ?case
  proof (cases i)
    case 0 with Cons.prems show ?thesis by simp
  next
    case (Suc j)
    with Cons.prems have "j < length rest" "chain (seg_end sg) rest" by simp_all
    from Cons.IH [OF this(2) this(1)] Cons.prems Suc show ?thesis by simp
  qed
qed

lemma chain_contiguous:
  "chain t segs \<Longrightarrow> Suc i < length segs \<Longrightarrow> seg_start (segs ! Suc i) = seg_end (segs ! i)"
proof (induction segs arbitrary: t i)
  case Nil then show ?case by simp
next
  case (Cons sg rest)
  show ?case
  proof (cases i)
    case 0 with Cons.prems show ?thesis by (cases rest) simp_all
  next
    case (Suc j)
    with Cons.prems show ?thesis using Cons.IH [of "seg_end sg" j] by simp
  qed
qed

lemma chain_first: "chain t segs \<Longrightarrow> segs \<noteq> [] \<Longrightarrow> seg_start (segs ! 0) = t"
  by (cases segs) simp_all

lemma length_stint_durations: "length (stint_durations pattern raw a b) = length pattern"
  by (simp add: stint_durations_def)

lemma compute_segments_resolved:
  "resolved_archetype player = Some arch \<Longrightarrow>
   compute_segments player =
     force_last_end (accumulate 0
       (zip (stint_durations (stint_pattern arch) (ensure_default_percentages player)
               (max 0 (min 48 (expected_minutes player)))
               (max 0 (48 - max 0 (min 48 (expected_minutes player)))))
            (stint_pattern arch)))"
  by (auto simp: resolved_archetype_def compute_segments_def Let_def
      split: option.splits if_splits)

text \<open>
  Claim C1. For a player whose archetype resolves, \<open>compute_segments\<close> returns one
  segment per pattern position, tagged in pattern order; every segment has
  \<open>0 \<le> start \<le> end \<le> 48\<close>; each start is the previous end; the first start is 0 and
  the last end is 48. Nothing is assumed about \<open>expected_minutes\<close> or \<open>stints_raw\<close>.
\<close>

theorem compute_segments_cover:
  assumes "resolved_archetype player = Some arch"
  shows "length (compute_segments player) = length (stint_pattern arch) \<and>
         map seg_tag (compute_segments player) = stint_pattern arch \<and>
         (\<forall>i < length (compute_segments player).
            0 \<le> seg_start (compute_segments player ! i) \<and>
            seg_start (compute_segments player ! i) \<le> seg_end (compute_segments player ! i) \<and>
            seg_end (compute_segments player ! i) \<le> 48) \<and>
         (\<forall>i. Suc i < length (compute_segments player) \<longrightarrow>
            seg_start (compute_segments player ! Suc i) = seg_end (compute_segments player ! i)) \<and>
         compute_segments player \<noteq> [] \<and>
         seg_start (compute_segments player ! 0) = 0 \<and>
         seg_end (last (compute_segments player)) = 48"
proof -
  define durations where "durations =
    stint_durations (stint_pattern arch) (ensure_default_percentages player)
      (max 0 (min 48 (expected_minutes player)))
      (max 0 (48 - max 0 (min 48 (expected_minutes player))))"
  have len: "length durations = length (stint_pattern arch)"
    by (simp add: durations_def length_stint_durations)
  have cs: "compute_segments player =
      force_last_end (accumulate 0 (zip durations (stint_pattern arch)))"
    unfolding durations_def by (rule compute_segments_resolved [OF assms])
  let ?acc = "accumulate 0 (zip durations (stint_pattern arch))"
  have ne: "stint_pattern arch \<noteq> []" by (rule resolved_pattern_nonempty [OF assms])
  have lacc: "length ?acc = length (stint_pattern arch)" using len by (simp add: length_accumulate)
  have ch: "chain 0 (compute_segments player)"
    unfolding cs by (rule chain_force_last_end [OF chain_accumulate]) simp_all
  have l: "length (compute_segments player) = length (stint_pattern arch)"
    unfolding cs by (simp add: length_force_last_end lacc)
  have tg: "map seg_tag (compute_segments player) = stint_pattern arch"
    unfolding cs using len by (simp add: tags_force_last_end tags_accumulate)
  have nonempty: "compute_segments player \<noteq> []" using l ne by auto
  have lst: "seg_end (last (compute_segments player)) = 48"
    unfolding cs using lacc ne by (intro last_force_last_end) auto
  show ?thesis
    using l tg nonempty lst chain_nth [OF ch] chain_contiguous [OF ch] chain_first [OF ch nonempty]
    by auto
qed

lemma lookup_three_stints:
  "archetypes get_config ''StarterCloserThreeStints'' = Some three_stints"
  by (simp add: get_config_def ARCHETYPES_def three_stints_def)

lemma lookup_unknown: "archetypes get_config ''Nobody'' = None"
  by (simp add: get_config_def ARCHETYPES_def)

theorem compute_segments_cover_witness:
  "resolved_archetype (example_player (Some ''StarterCloserThreeStints'') 30 []) = Some three_stints \<and>
   length (compute_segments (example_player (Some ''StarterCloserThreeStints'') 30 [])) = 5 \<and>
   seg_start (compute_segments (example_player (Some ''StarterCloserThreeStints'') 30 []) ! 0) = 0 \<and>
   seg_end (last (compute_segments (example_player (Some ''StarterCloserThreeStints'') 30 []))) = 48"
proof -
  have h: "resolved_archetype (example_player (Some ''StarterCloserThreeStints'') 30 []) = Some three_stints"
    by (simp add: resolved_archetype_def example_player_def lookup_three_stints)
  from compute_segments_cover [OF h] show ?thesis
    using h by (simp add: three_stints_def)
qed

text \<open>
  Claim C9. For a player whose archetype is absent, empty or unknown,
  \<open>compute_segments\<close> and \<open>compute_default_boundaries\<close> return the empty list and
  \<open>apply_boundaries\<close> returns the player unchanged, whatever \<open>ends\<close> and \<open>min_gap\<close>
  are. The three operations have no failing branch.
\<close>

theorem unresolved_archetype_noop:
  assumes "resolved_archetype player = None"
  shows "compute_segments player = [] \<and> compute_default_boundaries player = [] \<and>
         apply_boundaries player ends min_gap = player"
  using assms
  by (auto simp: resolved_archetype_def compute_segments_def compute_default_boundaries_def
      apply_boundaries_def split: option.splits if_splits)

theorem unresolved_archetype_noop_witness:
  "resolved_archetype (example_player (Some ''Nobody'') 30 [1, 2]) = None \<and>
   compute_segments (example_player (Some ''Nobody'') 30 [1, 2]) = [] \<and>
   compute_default_boundaries (example_player (Some ''Nobody'') 30 [1, 2]) = [] \<and>
   apply_boundaries (example_player (Some ''Nobody'') 30 [1, 2]) [50, 3] (1 / 1000) =
     example_player (Some ''Nobody'') 30 [1, 2]"
proof -
  have h: "resolved_archetype (example_player (Some ''Nobody'') 30 [1, 2]) = None"
    by (simp add: resolved_archetype_def example_player_def lookup_unknown)
  from unresolved_archetype_noop [OF h] show ?thesis using h by simp
qed

section \<open>Worked examples\<close>

lemma closer_segments_eval:
  "compute_segments (example_player (Some ''StarterCloserThreeStints'') 48 [1, 0, 0, 0, 0]) =
     [(0, 48, ''on''), (48, 48, ''off''), (48, 48, ''on''), (48, 48, ''off''), (48, 48, ''on'')]"
  by code_simp

lemma closer_boundaries_eval:
  "compute_default_boundaries
     (example_player (Some ''StarterCloserThreeStints'') 48 [1, 0, 0, 0, 0]) =
     [48, 48001 / 1000, 48002 / 1000, 48003 / 1000]"
  by code_simp

text \<open>
  Claim C10. \<open>compute_default_boundaries\<close> can leave [0, 48]: for the archetype
  \<open>StarterCloserThreeStints\<close> with \<open>expected_minutes = 48\<close> and
  \<open>stints_raw = [1, 0, 0, 0, 0]\<close> every segment after the first is \<open>(48, 48)\<close>, and
  pushing each boundary 0.001 past the previous one gives 48, 48.001, 48.002, 48.003.
\<close>

theorem default_boundaries_exceed_48:
  "map seg_end (compute_segments
      (example_player (Some ''StarterCloserThreeStints'') 48 [1, 0, 0, 0, 0])) =
     [48, 48, 48, 48, 48] \<and>
   compute_default_boundaries
     (example_player (Some ''StarterCloserThreeStints'') 48 [1, 0, 0, 0, 0]) =
     [48, 48001 / 1000, 48002 / 1000, 48003 / 1000] \<and>
   48 < compute_default_boundaries
     (example_player (Some ''StarterCloserThreeStints'') 48 [1, 0, 0, 0, 0]) ! 1 \<and>
   48 < last (compute_default_boundaries
     (example_player (Some ''StarterCloserThreeStints'') 48 [1, 0, 0, 0, 0]))"
  by (simp add: closer_segments_eval closer_boundaries_eval seg_end_def)

lemma one_stint_segments_eval:
  "compute_segments (example_player (Some ''NonStarterNonCloserOneStint'') 12 [1, 1, 0]) =
     [(0, 36, ''off''), (36, 48, ''on''), (48, 48, ''off'')]"
  by code_simp

lemma one_stint_steps_eval:
  "team_oncourt_steps
     (example_team [example_player (Some ''NonStarterNonCloserOneStint'') 12 [1, 1, 0]]) =
     Inr ([0, 36, 36, 48, 48], [0, 0, 1, 1, 0])"
  by code_simp

text \<open>
  Claim C6, as the code has it. For the one player with pattern \<open>off, on, off\<close>,
  \<open>expected_minutes = 12\<close> and \<open>stints_raw = [1, 1, 0]\<close>, the single \<open>on\<close> segment is
  \<open>(36, 48)\<close> and the step points are (0,0), (36,0), (36,1), (48,1), (48,0): the
  \<open>-1\<close> event of the segment that ends at 48 brings the final count to 0.
\<close>

theorem one_stint_team_steps:
  "compute_segments (example_player (Some ''NonStarterNonCloserOneStint'') 12 [1, 1, 0]) =
     [(0, 36, ''off''), (36, 48, ''on''), (48, 48, ''off'')] \<and>
   team_oncourt_steps
     (example_team [example_player (Some ''NonStarterNonCloserOneStint'') 12 [1, 1, 0]]) =
     Inr ([0, 36, 36, 48, 48], [0, 0, 1, 1, 0])"
  by (simp add: one_stint_segments_eval one_stint_steps_eval)

text \<open>
  The claim as stated fails: the result is neither the four points ending in (48,1)
  nor those four followed by a second (48,1), and its last count is not 1.
\<close>

theorem one_stint_team_steps_counterexample:
  "team_oncourt_steps
     (example_team [example_player (Some ''NonStarterNonCloserOneStint'') 12 [1, 1, 0]]) \<noteq>
     Inr ([0, 36, 36, 48], [0, 0, 1, 1]) \<and>
   team_oncourt_steps
     (example_team [example_player (Some ''NonStarterNonCloserOneStint'') 12 [1, 1, 0]]) \<noteq>
     Inr ([0, 36, 36, 48, 48], [0, 0, 1, 1, 1]) \<and>
   last (snd (projr (team_oncourt_steps
     (example_team [example_player (Some ''NonStarterNonCloserOneStint'') 12 [1, 1, 0]])))) \<noteq> 1"
  by (simp add: one_stint_steps_eval)

section \<open>Sanitising the boundaries\<close>

lemma sanitize_step_eq:
  "sanitize_step rnd L es g k (out, lst) =
     (out @ [max (rnd (lst + g))
                 (min (upper_bound rnd L g k) (if k < length es then es ! k else rnd (lst + g)))],
      max (rnd (lst + g))
          (min (upper_bound rnd L g k) (if k < length es then es ! k else rnd (lst + g))))"
proof -
  have e: "real_of_int (int L - 1 - (int k + 1)) = real_of_int (int L - 2 - int k)" by simp
  show ?thesis unfolding sanitize_step_def upper_bound_def Let_def e by simp
qed

lemma sanitize_state_0: "sanitize_state rnd L es g 0 = ([], 0)"
  by (simp add: sanitize_state_def)

lemma sanitize_state_Suc:
  "sanitize_state rnd L es g (Suc n) =
     sanitize_step rnd L es g n (sanitize_state rnd L es g n)"
  by (simp add: sanitize_state_def)

lemma sanitize_state_shape:
  "length (fst (sanitize_state rnd L es g n)) = n \<and>
   snd (sanitize_state rnd L es g n) = prev_end (fst (sanitize_state rnd L es g n)) n"
proof (induction n)
  case 0
  show ?case by (simp add: sanitize_state_0 prev_end_def)
next
  case (Suc n)
  obtain out lst where st: "sanitize_state rnd L es g n = (out, lst)"
    by (cases "sanitize_state rnd L es g n")
  with Suc have "length out = n" by simp
  then show ?case
    by (simp add: sanitize_state_Suc st sanitize_step_eq prev_end_def nth_append)
qed

lemma sanitize_ends_state:
  "sanitize_ends rnd L ends g = fst (sanitize_state rnd L (take (L - 1) ends) g (L - 1))"
  by (simp add: sanitize_ends_def sanitize_state_def)

lemma prev_end_append:
  "k \<le> length out \<Longrightarrow> prev_end (out @ [v]) k = prev_end out k"
  by (cases k) (simp_all add: prev_end_def nth_append)

lemma rounding_mono: "rounding rnd \<Longrightarrow> x \<le> y \<Longrightarrow> rnd x \<le> rnd y"
  by (simp add: rounding_def)

lemma rounding_idem: "rounding rnd \<Longrightarrow> rnd (rnd x) = rnd x"
  by (simp add: rounding_def)

lemma max_min_fixed:
  fixes a b c :: real
  assumes "f a = a" "f b = b" "f c = c"
  shows "f (max a (min b c)) = max a (min b c)"
  using assms by (simp add: max_def min_def)

text \<open>
  The invariant of the loop, for any rounding: each value is at least the rounded sum
  of its predecessor and the gap, at least its predecessor, at most the larger of that
  sum and the upper bound, and a float again.
\<close>

lemma sanitize_state_bounds:
  assumes r: "rounding rnd" and g: "rnd g = g" and es: "\<forall>e\<in>set es. rnd e = e" and pos: "0 < g"
  shows "k < n \<Longrightarrow>
     rnd (prev_end (fst (sanitize_state rnd L es g n)) k + g)
       \<le> fst (sanitize_state rnd L es g n) ! k \<and>
     prev_end (fst (sanitize_state rnd L es g n)) k \<le> fst (sanitize_state rnd L es g n) ! k \<and>
     fst (sanitize_state rnd L es g n) ! k
       \<le> max (rnd (prev_end (fst (sanitize_state rnd L es g n)) k + g)) (upper_bound rnd L g k) \<and>
     rnd (fst (sanitize_state rnd L es g n) ! k) = fst (sanitize_state rnd L es g n) ! k"
proof (induction n arbitrary: k)
  case 0
  then show ?case by simp
next
  case (Suc n)
  obtain out lst where st: "sanitize_state rnd L es g n = (out, lst)"
    by (cases "sanitize_state rnd L es g n")
  from sanitize_state_shape [of rnd L es g n] st
  have len: "length out = n" and lst: "lst = prev_end out n" by simp_all
  let ?A = "rnd (lst + g)" and ?B = "upper_bound rnd L g n"
  let ?raw = "if n < length es then es ! n else rnd (lst + g)"
  let ?V = "max ?A (min ?B ?raw)"
  have new: "fst (sanitize_state rnd L es g (Suc n)) = out @ [?V]"
    by (simp add: sanitize_state_Suc st sanitize_step_eq)
  show ?case
  proof (cases "k < n")
    case True
    from Suc.IH [OF True] st
    have ih: "rnd (prev_end out k + g) \<le> out ! k \<and> prev_end out k \<le> out ! k \<and>
        out ! k \<le> max (rnd (prev_end out k + g)) (upper_bound rnd L g k) \<and>
        rnd (out ! k) = out ! k" by simp
    have p: "prev_end (out @ [?V]) k = prev_end out k"
      using True len by (intro prev_end_append) simp
    have v: "(out @ [?V]) ! k = out ! k" using True len by (simp add: nth_append)
    show ?thesis unfolding new p v by (rule ih)
  next
    case False
    with Suc.prems have kn: "k = n" by simp
    have p: "prev_end (out @ [?V]) n = lst"
      unfolding lst using len by (intro prev_end_append) simp
    have v: "(out @ [?V]) ! n = ?V" using len by (simp add: nth_append)
    have a: "?A \<le> ?V" by simp
    have fixA: "rnd ?A = ?A" by (rule rounding_idem [OF r])
    have fixB: "rnd ?B = ?B" unfolding upper_bound_def by (rule rounding_idem [OF r])
    have fixraw: "rnd ?raw = ?raw"
    proof (cases "n < length es")
      case True
      then have "es ! n \<in> set es" by (rule nth_mem)
      with es True show ?thesis by simp
    next
      case False
      then show ?thesis using fixA by simp
    qed
    have fixV: "rnd ?V = ?V" by (rule max_min_fixed [OF fixA fixB fixraw])
    have b: "lst \<le> ?V"
    proof (cases n)
      case 0
      then have "lst = 0" using lst by (simp add: prev_end_def)
      then have "?A = g" using g by simp
      with pos \<open>lst = 0\<close> a show ?thesis by simp
    next
      case (Suc j)
      then have j: "j < n" by simp
      from Suc.IH [OF j] st have "rnd (out ! j) = out ! j" by simp
      moreover have "lst = out ! j" using lst Suc by (simp add: prev_end_def)
      ultimately have fl: "rnd lst = lst" by simp
      have "lst \<le> lst + g" using pos by simp
      from rounding_mono [OF r this] fl have "lst \<le> ?A" by simp
      with a show ?thesis by simp
    qed
    have c: "?V \<le> max ?A ?B" by simp
    show ?thesis unfolding kn new p v using a b c fixV by blast
  qed
qed

text \<open>
  Claim C3, as the code has it. For every candidate list of floats and every float
  \<open>min_gap > 0\<close>, whatever the rounding of the arithmetic: the sanitised sequence has
  \<open>L - 1\<close> values and is non-decreasing; value \<open>k\<close> is at least the rounded sum of the
  previous value and \<open>min_gap\<close> (0 comes before the first, so every value is at least
  \<open>min_gap\<close>), and at most the larger of that sum and the float computed for
  \<open>48 - (L - 2 - k) * min_gap\<close>. The sequence increases strictly wherever the rounded sum is
  larger than the previous value. The rounding is a function into the reals: no
  operation overflows. With a gap that the sum absorbs the values can be equal, and
  with a wide gap they pass 48.
\<close>

theorem sanitize_ends_spaced:
  assumes "rounding rnd" and "rnd min_gap = min_gap" and "\<forall>e\<in>set ends. rnd e = e"
    and "0 < min_gap"
  shows "length (sanitize_ends rnd L ends min_gap) = L - 1 \<and>
         (\<forall>k<length (sanitize_ends rnd L ends min_gap).
            rnd (prev_end (sanitize_ends rnd L ends min_gap) k + min_gap)
              \<le> sanitize_ends rnd L ends min_gap ! k \<and>
            sanitize_ends rnd L ends min_gap ! k
              \<le> max (rnd (prev_end (sanitize_ends rnd L ends min_gap) k + min_gap))
                    (upper_bound rnd L min_gap k)) \<and>
         sorted (sanitize_ends rnd L ends min_gap) \<and>
         (\<forall>x\<in>set (sanitize_ends rnd L ends min_gap). min_gap \<le> x) \<and>
         (\<forall>k<length (sanitize_ends rnd L ends min_gap).
            prev_end (sanitize_ends rnd L ends min_gap) k
              < rnd (prev_end (sanitize_ends rnd L ends min_gap) k + min_gap) \<longrightarrow>
            prev_end (sanitize_ends rnd L ends min_gap) k < sanitize_ends rnd L ends min_gap ! k)"
proof -
  let ?out = "sanitize_ends rnd L ends min_gap"
  have len: "length ?out = L - 1"
    by (simp add: sanitize_ends_state sanitize_state_shape)
  have es: "\<forall>e\<in>set (take (L - 1) ends). rnd e = e"
    using assms(3) by (auto dest: in_set_takeD)
  note b = sanitize_state_bounds [OF assms(1,2) es assms(4), of _ "L - 1" L,
      folded sanitize_ends_state]
  have lo: "\<forall>k<length ?out. rnd (prev_end ?out k + min_gap) \<le> ?out ! k \<and>
      ?out ! k \<le> max (rnd (prev_end ?out k + min_gap)) (upper_bound rnd L min_gap k)"
    unfolding len using b by blast
  have step: "\<forall>k<length ?out. prev_end ?out k \<le> ?out ! k" unfolding len using b by blast
  have "\<forall>i. Suc i < length ?out \<longrightarrow> ?out ! i \<le> ?out ! Suc i"
  proof (intro allI impI)
    fix i assume "Suc i < length ?out"
    with step have "prev_end ?out (Suc i) \<le> ?out ! Suc i" by blast
    then show "?out ! i \<le> ?out ! Suc i" by (simp add: prev_end_def)
  qed
  then have srt: "sorted ?out" by (simp add: sorted_iff_nth_Suc)
  have ge: "\<forall>x\<in>set ?out. min_gap \<le> x"
  proof
    fix x assume "x \<in> set ?out"
    then obtain i where i: "i < length ?out" "?out ! i = x" by (auto simp: in_set_conv_nth)
    then have z: "0 < length ?out" by linarith
    with lo have "rnd (prev_end ?out 0 + min_gap) \<le> ?out ! 0" by blast
    then have "min_gap \<le> ?out ! 0" using assms(2) by (simp add: prev_end_def)
    also have "\<dots> \<le> ?out ! i" using srt i(1) by (simp add: sorted_nth_mono)
    finally show "min_gap \<le> x" using i(2) by simp
  qed
  have strict: "\<forall>k<length ?out. prev_end ?out k < rnd (prev_end ?out k + min_gap) \<longrightarrow>
      prev_end ?out k < ?out ! k"
    using lo by (meson less_le_trans)
  from len lo srt ge strict show ?thesis by blast
qed

lemma coarse_rounding: "rounding coarse"
proof -
  have mono: "coarse x \<le> coarse y" if "x \<le> y" for x y
  proof -
    have fx: "of_int \<lfloor>x\<rfloor> \<le> x" and fy: "of_int \<lfloor>y\<rfloor> \<le> y" by simp_all
    consider "\<bar>x\<bar> < 1" "\<bar>y\<bar> < 1" | "\<bar>x\<bar> < 1" "\<not> \<bar>y\<bar> < 1" | "\<not> \<bar>x\<bar> < 1" "\<bar>y\<bar> < 1"
      | "\<not> \<bar>x\<bar> < 1" "\<not> \<bar>y\<bar> < 1" by blast
    then show ?thesis
    proof cases
      case 1
      with that show ?thesis by (simp add: coarse_def)
    next
      case 2
      with that have "1 \<le> y" by linarith
      then have "(1::int) \<le> \<lfloor>y\<rfloor>" by (simp add: le_floor_iff)
      then have "(1::real) \<le> of_int \<lfloor>y\<rfloor>" by linarith
      moreover have "x < 1" using 2(1) by linarith
      moreover have "coarse x = x" "coarse y = of_int \<lfloor>y\<rfloor>" using 2 by (simp_all add: coarse_def)
      ultimately show ?thesis by linarith
    next
      case 3
      with that have "x \<le> - 1" by linarith
      moreover have "- 1 < y" using 3(2) by linarith
      moreover have "coarse x = of_int \<lfloor>x\<rfloor>" "coarse y = y" using 3 by (simp_all add: coarse_def)
      ultimately show ?thesis using fx by linarith
    next
      case 4
      from that have "\<lfloor>x\<rfloor> \<le> \<lfloor>y\<rfloor>" by (rule floor_mono)
      with 4 show ?thesis by (simp add: coarse_def)
    qed
  qed
  have idem: "coarse (coarse x) = coarse x" for x
    by (simp add: coarse_def)
  from mono idem show ?thesis by (simp add: rounding_def)
qed

lemma absorbed_gap_eval: "sanitize_ends coarse 5 [12, 12, 12, 12] (1 / 2) = [12, 12, 12, 12]"
  by code_simp

lemma wide_gap_eval: "sanitize_ends (\<lambda>x. x) 5 [] 30 = [30, 60, 90, 120]"
  by code_simp

theorem sanitize_ends_spaced_witness:
  "rounding coarse \<and> coarse (1 / 2) = 1 / 2 \<and> coarse 12 = 12 \<and> (0::real) < 1 / 2 \<and>
   sanitize_ends coarse 5 [12, 12, 12, 12] (1 / 2) = [12, 12, 12, 12] \<and>
   length (sanitize_ends coarse 5 [12, 12, 12, 12] (1 / 2)) = 4 \<and>
   sorted (sanitize_ends coarse 5 [12, 12, 12, 12] (1 / 2)) \<and>
   coarse (prev_end (sanitize_ends coarse 5 [12, 12, 12, 12] (1 / 2)) 1 + 1 / 2)
     \<le> sanitize_ends coarse 5 [12, 12, 12, 12] (1 / 2) ! 1"
proof -
  have g: "coarse (1 / 2) = 1 / 2" by (simp add: coarse_def)
  have c12: "coarse 12 = 12" by (simp add: coarse_def)
  have es: "\<forall>e\<in>set [12, 12, 12, 12]. coarse e = e" by (simp add: c12)
  have pos: "(0::real) < 1 / 2" by simp
  note t = sanitize_ends_spaced [OF coarse_rounding g es pos, of 5]
  from t have len: "length (sanitize_ends coarse 5 [12, 12, 12, 12] (1 / 2)) = 4" by simp
  from t have srt: "sorted (sanitize_ends coarse 5 [12, 12, 12, 12] (1 / 2))" by blast
  from t have "\<forall>k<length (sanitize_ends coarse 5 [12, 12, 12, 12] (1 / 2)).
      coarse (prev_end (sanitize_ends coarse 5 [12, 12, 12, 12] (1 / 2)) k + 1 / 2)
        \<le> sanitize_ends coarse 5 [12, 12, 12, 12] (1 / 2) ! k" by blast
  with len have lo: "coarse (prev_end (sanitize_ends coarse 5 [12, 12, 12, 12] (1 / 2)) 1 + 1 / 2)
        \<le> sanitize_ends coarse 5 [12, 12, 12, 12] (1 / 2) ! 1"
    by (metis one_less_numeral_iff semiring_norm(76))
  from coarse_rounding g c12 pos absorbed_gap_eval len srt lo show ?thesis by blast
qed

text \<open>
  The claim as stated fails for a wide gap: with \<open>L = 5\<close>, no candidates and
  \<open>min_gap = 30\<close> the sequence is 30, 60, 90, 120, every sum being exact.
\<close>

theorem sanitize_ends_spaced_counterexample:
  "\<not> (sanitize_ends (\<lambda>x. x) 5 [] 30 ! 0 \<le> 48 - real_of_int (int 5 - 2 - int 0) * 30) \<and>
   \<not> (sanitize_ends (\<lambda>x. x) 5 [] 30 ! 3 \<le> 48)"
  by (simp add: wide_gap_eval)

section \<open>A single stint\<close>

lemma split_single:
  "archetypes get_config aid = Some arch \<Longrightarrow> stint_pattern arch = [tag] \<Longrightarrow>
   split_on_off_indices aid = (if tag = ''on'' then ([0], []) else ([], [0]))"
  by (simp add: split_on_off_indices_def)

lemma sanitize_ends_single: "sanitize_ends rnd (Suc 0) ends g = []"
  by (simp add: sanitize_ends_def)

lemma boundary_segments_Nil: "boundary_segments [] = ([0], [48])"
  by (simp add: boundary_segments_def)

lemma apply_boundaries_single:
  assumes "resolved_archetype player = Some arch" and "stint_pattern arch = [tag]"
  shows "apply_boundaries player ends min_gap =
           player\<lparr>expected_minutes := (if tag = ''on'' then 48 else 0), stints_raw := [1]\<rparr>"
  using assms
  by (auto simp: resolved_archetype_def apply_boundaries_def split_single sanitize_ends_single
      boundary_segments_Nil split: option.splits if_splits)

lemma stint_durations_single: "\<exists>x. stint_durations [tag] raw a b = [x]"
  by (simp add: stint_durations_def)

lemma compute_segments_single:
  assumes "resolved_archetype player = Some arch" and "stint_pattern arch = [tag]"
  shows "compute_segments player = [(0, 48, tag)]"
proof -
  obtain x where "stint_durations [tag] (ensure_default_percentages player)
      (max 0 (min 48 (expected_minutes player)))
      (max 0 (48 - max 0 (min 48 (expected_minutes player)))) = [x]"
    using stint_durations_single by blast
  then show ?thesis
    by (simp add: compute_segments_resolved [OF assms(1)] assms(2) force_last_end_single
        seg_start_def seg_tag_def)
qed

lemma resolved_archetype_update:
  "resolved_archetype (player\<lparr>expected_minutes := em, stints_raw := raw\<rparr>) =
     resolved_archetype player"
  by (simp add: resolved_archetype_def)

lemma lookup_garbage_time: "archetypes get_config ''GarbageTime'' = Some garbage_time"
  by (simp add: get_config_def ARCHETYPES_def garbage_time_def)

text \<open>
  Claim C4, as the code has it. For a pattern of length 1 the guard \<open>L \<le> 0\<close> does not
  fire: \<open>apply_boundaries\<close> ignores \<open>ends\<close> and \<open>min_gap\<close>, sets \<open>stints_raw\<close> to
  \<open>[1]\<close> and \<open>expected_minutes\<close> to the length of the \<open>on\<close> group (0 for the pattern
  \<open>off\<close>, 48 for \<open>on\<close>), and leaves every other field as it was. The computed
  segments, \<open>[(0, 48, tag)]\<close>, do not change.
\<close>

theorem apply_boundaries_single_stint:
  assumes "resolved_archetype player = Some arch" and "stint_pattern arch = [tag]"
  shows "apply_boundaries player ends min_gap =
           player\<lparr>expected_minutes := (if tag = ''on'' then 48 else 0), stints_raw := [1]\<rparr> \<and>
         compute_segments (apply_boundaries player ends min_gap) = compute_segments player \<and>
         compute_segments player = [(0, 48, tag)]"
proof -
  let ?p = "player\<lparr>expected_minutes := (if tag = ''on'' then 48 else 0), stints_raw := [1]\<rparr>"
  have a: "apply_boundaries player ends min_gap = ?p"
    by (rule apply_boundaries_single [OF assms])
  have r: "resolved_archetype ?p = Some arch"
    using assms(1) by (simp only: resolved_archetype_update)
  have b: "compute_segments ?p = [(0, 48, tag)]"
    by (rule compute_segments_single [OF r assms(2)])
  have c: "compute_segments player = [(0, 48, tag)]"
    by (rule compute_segments_single [OF assms])
  from a b c show ?thesis by simp
qed

theorem apply_boundaries_single_stint_witness:
  "resolved_archetype (example_player (Some ''GarbageTime'') 30 [1 / 2]) = Some garbage_time \<and>
   stint_pattern garbage_time = [''off''] \<and>
   apply_boundaries (example_player (Some ''GarbageTime'') 30 [1 / 2]) [7] (1 / 1000) =
     example_player (Some ''GarbageTime'') 0 [1] \<and>
   compute_segments (example_player (Some ''GarbageTime'') 30 [1 / 2]) = [(0, 48, ''off'')]"
proof -
  have h: "resolved_archetype (example_player (Some ''GarbageTime'') 30 [1 / 2]) = Some garbage_time"
    by (simp add: resolved_archetype_def example_player_def lookup_garbage_time)
  have p: "stint_pattern garbage_time = [''off'']" by (simp add: garbage_time_def)
  from apply_boundaries_single_stint [OF h p, of "[7]" "1 / 1000"] h p show ?thesis
    by (simp add: example_player_def)
qed

lemma garbage_time_apply_eval:
  "apply_boundaries (example_player (Some ''GarbageTime'') 30 []) [] (1 / 1000) =
     example_player (Some ''GarbageTime'') 0 [1]"
  by code_simp

text \<open>
  The claim as stated fails: a \<open>GarbageTime\<close> player with \<open>expected_minutes = 30\<close>
  and no weights comes back with \<open>expected_minutes = 0\<close> and \<open>stints_raw = [1]\<close>.
\<close>

theorem apply_boundaries_single_stint_counterexample:
  "apply_boundaries (example_player (Some ''GarbageTime'') 30 []) [] (1 / 1000) \<noteq>
     example_player (Some ''GarbageTime'') 30 [] \<and>
   expected_minutes (apply_boundaries (example_player (Some ''GarbageTime'') 30 []) [] (1 / 1000)) = 0 \<and>
   stints_raw (apply_boundaries (example_player (Some ''GarbageTime'') 30 []) [] (1 / 1000)) = [1]"
  by (simp add: garbage_time_apply_eval) (simp add: example_player_def)

section \<open>Team occupancy steps\<close>

lemma walk_step_eq:
  "walk_step (t, d) (xs, ys, cur, lt) =
     ((if xs = [] then xs @ [lt] else xs) @ (if t \<noteq> lt then [t] else []) @ [t],
      (if xs = [] then ys @ [cur] else ys) @ (if t \<noteq> lt then [cur] else []) @ [cur + d],
      cur + d, t)"
  by (simp add: walk_step_def Let_def)

lemma fold_walk_step:
  "length xs = length ys \<Longrightarrow>
   fold walk_step es (xs, ys, cur, lt) =
     (xs @ map fst (emit (xs = []) cur lt es), ys @ map snd (emit (xs = []) cur lt es),
      cur + sum_list (map snd es), (if es = [] then lt else fst (last es)))"
proof (induction es arbitrary: xs ys cur lt)
  case Nil
  then show ?case by simp
next
  case (Cons e es)
  obtain t d where e: "e = (t, d)" by (cases e)
  let ?xs = "(if xs = [] then xs @ [lt] else xs) @ (if t \<noteq> lt then [t] else []) @ [t]"
  let ?ys = "(if xs = [] then ys @ [cur] else ys) @ (if t \<noteq> lt then [cur] else []) @ [cur + d]"
  have len: "length ?xs = length ?ys" using Cons.prems by (cases xs; cases ys) auto
  have ne: "?xs \<noteq> []" by simp
  have "fold walk_step (e # es) (xs, ys, cur, lt) = fold walk_step es (?xs, ?ys, cur + d, t)"
    by (simp add: e walk_step_eq)
  also have "\<dots> = (?xs @ map fst (emit False (cur + d) t es), ?ys @ map snd (emit False (cur + d) t es),
      cur + d + sum_list (map snd es), (if es = [] then t else fst (last es)))"
    using Cons.IH [OF len] ne by simp
  finally show ?case using Cons.prems by (cases xs; cases ys) (auto simp: e)
qed

lemma walk_emit:
  "walk es = (map fst (emit True 0 0 es), map snd (emit True 0 0 es),
              sum_list (map snd es), (if es = [] then 0 else fst (last es)))"
  using fold_walk_step [of "[]" "[]" es 0 0] by (simp add: walk_def)

lemma fold_tidy_step:
  assumes "length xs = length ys" "length out_x = length out_y" "out_x \<noteq> []"
  shows "m \<le> length xs \<Longrightarrow>
     fold (tidy_step xs ys) [m..<length xs] (out_x, out_y) =
       (out_x @ map fst (tidy (last out_x, last out_y) (drop m (zip xs ys))),
        out_y @ map snd (tidy (last out_x, last out_y) (drop m (zip xs ys))))"
  using assms(2,3)
proof (induction "length xs - m" arbitrary: m out_x out_y)
  case 0
  then show ?case using assms(1) by simp
next
  case (Suc k)
  from Suc.hyps(2) Suc.prems have lt: "m < length xs" by simp
  then have upt: "[m..<length xs] = m # [Suc m..<length xs]" by (simp add: upt_conv_Cons)
  have dr: "drop m (zip xs ys) = (xs ! m, ys ! m) # drop (Suc m) (zip xs ys)"
    using lt assms(1) Cons_nth_drop_Suc [of m "zip xs ys", symmetric] by simp
  have k: "k = length xs - Suc m" using Suc.hyps(2) by simp
  have sm: "Suc m \<le> length xs" using lt by simp
  show ?case
  proof (cases "\<not> (isclose (xs ! m) (last out_x) \<and> ys ! m = last out_y)")
    case True
    have "fold (tidy_step xs ys) [m..<length xs] (out_x, out_y) =
          fold (tidy_step xs ys) [Suc m..<length xs] (out_x @ [xs ! m], out_y @ [ys ! m])"
      using True by (simp add: upt tidy_step_def)
    also have "\<dots> = ((out_x @ [xs ! m]) @ map fst (tidy (xs ! m, ys ! m) (drop (Suc m) (zip xs ys))),
        (out_y @ [ys ! m]) @ map snd (tidy (xs ! m, ys ! m) (drop (Suc m) (zip xs ys))))"
      using Suc.hyps(1) [OF k sm, of "out_x @ [xs ! m]" "out_y @ [ys ! m]"] Suc.prems by simp
    finally show ?thesis using True by (simp add: dr)
  next
    case False
    have "fold (tidy_step xs ys) [m..<length xs] (out_x, out_y) =
          fold (tidy_step xs ys) [Suc m..<length xs] (out_x, out_y)"
      using False by (simp add: upt tidy_step_def)
    also have "\<dots> = (out_x @ map fst (tidy (last out_x, last out_y) (drop (Suc m) (zip xs ys))),
        out_y @ map snd (tidy (last out_x, last out_y) (drop (Suc m) (zip xs ys))))"
      using Suc.hyps(1) [OF k sm, of out_x out_y] Suc.prems by simp
    finally show ?thesis using False by (simp add: dr)
  qed
qed

lemma emit_nonempty: "es \<noteq> [] \<Longrightarrow> emit first cur lt es \<noteq> []"
  by (cases es) auto

lemma emit_True_hd: "es \<noteq> [] \<Longrightarrow> hd (emit True cur lt es) = (lt, cur)"
  by (cases es) auto

lemma team_oncourt_steps_points:
  assumes "sorted_events team_v \<noteq> []"
  shows "team_oncourt_steps team_v =
     Inr (map fst (close_domain (hd (emit True 0 0 (sorted_events team_v)) #
                     tidy (hd (emit True 0 0 (sorted_events team_v)))
                          (tl (emit True 0 0 (sorted_events team_v))))),
          map snd (close_domain (hd (emit True 0 0 (sorted_events team_v)) #
                     tidy (hd (emit True 0 0 (sorted_events team_v)))
                          (tl (emit True 0 0 (sorted_events team_v))))))"
proof -
  let ?pts = "emit True 0 0 (sorted_events team_v)"
  let ?xs = "map fst ?pts" and ?ys = "map snd ?pts"
  have ne: "?pts \<noteq> []" by (rule emit_nonempty [OF assms])
  then obtain p ps where pts: "?pts = p # ps" by (cases ?pts) auto
  have zip: "zip ?xs ?ys = ?pts" by (simp add: zip_map_fst_snd)
  have one: "Suc 0 \<le> length ?xs" using ne by (cases ?pts) auto
  have f: "fold (tidy_step ?xs ?ys) [1..<length ?xs] ([?xs ! 0], [?ys ! 0]) =
        ([?xs ! 0] @ map fst (tidy (?xs ! 0, ?ys ! 0) (drop 1 ?pts)),
         [?ys ! 0] @ map snd (tidy (?xs ! 0, ?ys ! 0) (drop 1 ?pts)))"
    using fold_tidy_step [of ?xs ?ys "[?xs ! 0]" "[?ys ! 0]" 1] one by (simp add: zip)
  show ?thesis
    unfolding team_oncourt_steps_def walk_emit
    using ne f by (simp add: pts close_domain_def last_map)
qed

lemma deltas_append: "deltas (xs @ ys) = deltas xs + deltas ys"
  by (simp add: deltas_def)

lemma deltas_filter_split: "deltas es = deltas (filter P es) + deltas (filter (\<lambda>y. \<not> P y) es)"
  by (induction es) (auto simp: deltas_def)

lemma deltas_constant: "\<forall>y\<in>set es. snd y = c \<Longrightarrow> deltas es = int (length es) * c"
  by (induction es) (auto simp: deltas_def algebra_simps)

lemma deltas_filter_insort:
  "deltas (filter P (insort_key k x es)) = deltas (filter P [x]) + deltas (filter P es)"
  by (induction es) (auto simp: deltas_def)

lemma deltas_filter_sort: "deltas (filter P (sort_key k es)) = deltas (filter P es)"
proof (induction es)
  case Nil
  show ?case by (simp add: sort_key_def)
next
  case (Cons e es)
  have "sort_key k (e # es) = insort_key k e (sort_key k es)" by (simp add: sort_key_def)
  then show ?case using Cons by (simp add: deltas_filter_insort) (simp add: deltas_def)
qed

lemma balanced_Nil: "balanced []"
  by (simp add: balanced_def deltas_def)

lemma balanced_append: "balanced xs \<Longrightarrow> balanced ys \<Longrightarrow> balanced (xs @ ys)"
  by (simp add: balanced_def deltas_append)

lemma balanced_concat: "(\<forall>xs\<in>set xss. balanced xs) \<Longrightarrow> balanced (concat xss)"
  by (induction xss) (auto simp: balanced_Nil balanced_append)

lemma balanced_pair: "s < e \<Longrightarrow> balanced [(s, 1), (e, - 1)]"
  by (auto simp: balanced_def deltas_def)

lemma balanced_domain: "balanced [(0, 0), (48, 0)]"
  by (auto simp: balanced_def deltas_def)

lemma balanced_sort: "balanced es \<Longrightarrow> balanced (sort_key k es)"
  by (simp add: balanced_def deltas_filter_sort)

lemma sorted_prefix_deltas:
  fixes es :: "(real \<times> int) list"
  assumes "sorted es" and "balanced es"
  shows "0 \<le> deltas (take n es)"
proof (cases "take n es = []")
  case True
  then show ?thesis by (simp only: deltas_def list.map sum_list.Nil order_refl)
next
  case False
  let ?P = "take n es" and ?R = "drop n es"
  define x where "x = last ?P"
  have es: "es = ?P @ ?R" by simp
  have sP: "sorted ?P" using assms(1) by (rule sorted_wrt_take)
  have le_x: "\<forall>y\<in>set ?P. y \<le> x"
  proof
    fix y assume "y \<in> set ?P"
    with False sP show "y \<le> x" unfolding x_def
      by (metis append_butlast_last_id last_in_set order_refl set_ConsD set_append sorted_append
          UnE list.set(2) insert_iff empty_iff list.set(1))
  qed
  have x_in: "x \<in> set ?P" unfolding x_def using False by simp
  have ge_x: "\<forall>y\<in>set ?R. x \<le> y"
    using assms(1) x_in by (subst (asm) es) (auto simp: sorted_append simp del: append_take_drop_id)
  show ?thesis
  proof (cases "0 \<le> snd x")
    case True
    have "filter (\<lambda>y. y < x) ?R = []" using ge_x by (auto simp: filter_empty_conv)
    then have "filter (\<lambda>y. y < x) es = filter (\<lambda>y. y < x) ?P"
      by (subst es) (simp del: append_take_drop_id)
    with assms(2) have F: "0 \<le> deltas (filter (\<lambda>y. y < x) ?P)"
      by (metis balanced_def)
    have "\<forall>y\<in>set (filter (\<lambda>y. \<not> y < x) ?P). snd y = snd x"
    proof
      fix y assume "y \<in> set (filter (\<lambda>y. \<not> y < x) ?P)"
      then have "y \<le> x" "\<not> y < x" using le_x by simp_all
      then have "y = x" by (simp add: order.order_iff_strict)
      then show "snd y = snd x" by simp
    qed
    then have "deltas (filter (\<lambda>y. \<not> y < x) ?P) = int (length (filter (\<lambda>y. \<not> y < x) ?P)) * snd x"
      by (rule deltas_constant)
    with True have "0 \<le> deltas (filter (\<lambda>y. \<not> y < x) ?P)" by simp
    with F deltas_filter_split [of ?P "\<lambda>y. y < x"] show ?thesis by simp
  next
    case False
    have "\<forall>y\<in>set (filter (\<lambda>y. y \<le> x) ?R). snd y = snd x"
    proof
      fix y assume "y \<in> set (filter (\<lambda>y. y \<le> x) ?R)"
      then have "x \<le> y" "y \<le> x" using ge_x by simp_all
      then have "y = x" by (rule order.antisym [rotated])
      then show "snd y = snd x" by simp
    qed
    then have "deltas (filter (\<lambda>y. y \<le> x) ?R) = int (length (filter (\<lambda>y. y \<le> x) ?R)) * snd x"
      by (rule deltas_constant)
    with False have R: "deltas (filter (\<lambda>y. y \<le> x) ?R) \<le> 0"
      by (simp add: mult_nonneg_nonpos)
    have "filter (\<lambda>y. y \<le> x) ?P = ?P" using le_x by (simp add: filter_id_conv)
    then have "filter (\<lambda>y. y \<le> x) es = ?P @ filter (\<lambda>y. y \<le> x) ?R"
      by (subst es) (simp del: append_take_drop_id)
    with assms(2) have "0 \<le> deltas (?P @ filter (\<lambda>y. y \<le> x) ?R)"
      by (metis balanced_def)
    with R show ?thesis by (simp add: deltas_append)
  qed
qed

lemma compute_segments_chain: "chain 0 (compute_segments player)"
proof (cases "resolved_archetype player")
  case None
  then have "compute_segments player = []"
    by (auto simp: resolved_archetype_def compute_segments_def split: option.splits if_splits)
  then show ?thesis by simp
next
  case (Some arch)
  show ?thesis
    unfolding compute_segments_resolved [OF Some]
    by (rule chain_force_last_end [OF chain_accumulate]) simp_all
qed

lemma chain_set:
  assumes "chain t segs" and "sg \<in> set segs"
  shows "t \<le> seg_start sg \<and> seg_start sg \<le> seg_end sg \<and> seg_end sg \<le> 48"
proof -
  from assms(2) obtain i where "i < length segs" "segs ! i = sg"
    by (auto simp: in_set_conv_nth)
  with chain_nth [OF assms(1), of i] show ?thesis by simp
qed

lemma segment_events_balanced:
  assumes "(s, e, tag) \<in> set (compute_segments p)"
  shows "balanced (if tag = ''on'' \<and> e > s
                   then [(max 0 (min 48 s), 1), (max 0 (min 48 e), - 1)] else [])"
proof -
  from chain_set [OF compute_segments_chain assms]
  have r: "0 \<le> s" "s \<le> e" "e \<le> 48" by (simp_all add: seg_start_def seg_end_def)
  show ?thesis
  proof (cases "tag = ''on'' \<and> e > s")
    case True
    with r have "max 0 (min 48 s) = s" "max 0 (min 48 e) = e" "s < e" by simp_all
    with True show ?thesis by (simp add: balanced_pair)
  next
    case False
    then show ?thesis by (auto simp: balanced_Nil)
  qed
qed

lemma player_events_balanced: "balanced (player_events p)"
  unfolding player_events_def
  by (rule balanced_concat) (auto simp: segment_events_balanced simp del: max.absorb1 max.absorb2 max.absorb3 max.absorb4 min.absorb1 min.absorb2 min.absorb3 min.absorb4)

lemma player_events_range: "(t, d) \<in> set (player_events p) \<Longrightarrow> 0 \<le> t \<and> t \<le> 48"
  by (auto simp: player_events_def split: if_splits)

lemma team_events_balanced: "balanced (team_events team_v)"
  unfolding team_events_def
  by (intro balanced_append balanced_concat balanced_domain) (auto simp: player_events_balanced)

lemma team_events_range: "(t, d) \<in> set (team_events team_v) \<Longrightarrow> 0 \<le> t \<and> t \<le> 48"
  by (auto simp: team_events_def dest: player_events_range)

lemma sorted_events_sort: "sorted_events team_v = sort (team_events team_v)"
  by (simp add: sorted_events_def)

lemma sorted_events_sorted: "sorted (sorted_events team_v)"
  by (simp add: sorted_events_sort)

lemma sorted_events_set: "set (sorted_events team_v) = set (team_events team_v)"
  by (simp add: sorted_events_sort)

lemma sorted_events_nonempty: "sorted_events team_v \<noteq> []"
proof -
  have "(0, 0) \<in> set (team_events team_v)" by (simp add: team_events_def)
  then have "(0, 0) \<in> set (sorted_events team_v)" by (simp only: sorted_events_set)
  then show ?thesis by auto
qed

lemma sorted_events_balanced: "balanced (sorted_events team_v)"
  unfolding sorted_events_def by (rule balanced_sort [OF team_events_balanced])

lemma sorted_events_range: "(t, d) \<in> set (sorted_events team_v) \<Longrightarrow> 0 \<le> t \<and> t \<le> 48"
  unfolding sorted_events_set by (rule team_events_range)

lemma sorted_events_prefix: "0 \<le> deltas (take n (sorted_events team_v))"
  by (rule sorted_prefix_deltas [OF sorted_events_sorted sorted_events_balanced])

lemma sorted_times: 
  fixes es :: "(real \<times> int) list"
  shows "sorted es \<Longrightarrow> sorted (map fst es)"
  by (induction es) (auto simp: less_eq_prod_def)

lemma emit_point_time:
  "p \<in> set (emit first cur lt es) \<Longrightarrow> fst p = lt \<or> fst p \<in> fst ` set es"
proof (induction es arbitrary: first cur lt)
  case Nil
  then show ?case by simp
next
  case (Cons e es)
  obtain t d where e: "e = (t, d)" by (cases e)
  from Cons.prems consider "fst p = lt" | "fst p = t" | "p \<in> set (emit False (cur + d) t es)"
    by (auto simp: e split: if_splits)
  then show ?case
  proof cases
    case 1 then show ?thesis by simp
  next
    case 2 then show ?thesis by (simp add: e)
  next
    case 3
    from Cons.IH [OF 3] show ?thesis by (auto simp: e)
  qed
qed

lemma emit_times: "set (map fst (emit first cur lt es)) \<subseteq> insert lt (fst ` set es)"
  using emit_point_time by fastforce

lemma emit_sorted: "sorted (lt # map fst es) \<Longrightarrow> sorted (map fst (emit first cur lt es))"
proof (induction es arbitrary: first cur lt)
  case Nil
  show ?case by simp
next
  case (Cons e es)
  obtain t d where e: "e = (t, d)" by (cases e)
  from Cons.prems have lt: "lt \<le> t" and st: "sorted (t # map fst es)" by (simp_all add: e)
  have ih: "sorted (map fst (emit False (cur + d) t es))" by (rule Cons.IH [OF st])
  have ge: "\<forall>x\<in>set (map fst (emit False (cur + d) t es)). t \<le> x"
  proof
    fix x assume "x \<in> set (map fst (emit False (cur + d) t es))"
    with emit_times [of False "cur + d" t es] have "x = t \<or> x \<in> set (map fst es)" by auto
    with st show "t \<le> x" by auto
  qed
  show ?case using lt ih ge by (auto simp: e sorted_append)
qed

lemma emit_counts:
  "c \<in> set (map snd (emit first cur lt es)) \<Longrightarrow> \<exists>n. c = cur + deltas (take n es)"
proof (induction es arbitrary: first cur lt)
  case Nil
  then show ?case by simp
next
  case (Cons e es)
  obtain t d where e: "e = (t, d)" by (cases e)
  from Cons.prems consider "c = cur" | "c = cur + d"
    | "c \<in> set (map snd (emit False (cur + d) t es))"
    by (auto simp: e split: if_splits)
  then show ?case
  proof cases
    case 1
    then have "c = cur + deltas (take 0 (e # es))" by (simp add: deltas_def)
    then show ?thesis by blast
  next
    case 2
    then have "c = cur + deltas (take (Suc 0) (e # es))" by (simp add: deltas_def e)
    then show ?thesis by blast
  next
    case 3
    from Cons.IH [OF 3] obtain n where "c = cur + d + deltas (take n es)" by blast
    then have "c = cur + deltas (take (Suc n) (e # es))" by (simp add: deltas_def e)
    then show ?thesis by blast
  qed
qed

lemma tidy_subset: "set (tidy kept ps) \<subseteq> set ps"
  by (induction ps arbitrary: kept) auto

lemma tidy_sorted: "sorted (map fst ps) \<Longrightarrow> sorted (map fst (tidy kept ps))"
proof (induction ps arbitrary: kept)
  case Nil
  show ?case by simp
next
  case (Cons p ps)
  from Cons.prems have s: "sorted (map fst ps)" and ge: "\<forall>q\<in>set ps. fst p \<le> fst q" by auto
  have "\<forall>q\<in>set (tidy p ps). fst p \<le> fst q" using ge tidy_subset [of p ps] by blast
  with Cons.IH [OF s] show ?case by auto
qed

lemma close_domain_props:
  assumes "ps \<noteq> []" "sorted (map fst ps)" "\<forall>p\<in>set ps. 0 \<le> fst p \<and> fst p \<le> 48 \<and> 0 \<le> snd p"
  shows "close_domain ps \<noteq> [] \<and> hd (close_domain ps) = hd ps \<and>
         fst (last (close_domain ps)) = 48 \<and> sorted (map fst (close_domain ps)) \<and>
         (\<forall>p\<in>set (close_domain ps). 0 \<le> fst p \<and> fst p \<le> 48 \<and> 0 \<le> snd p)"
proof (cases "fst (last ps) \<noteq> 48")
  case True
  have "0 \<le> snd (last ps)" using assms(1,3) by simp
  with True assms show ?thesis by (auto simp: close_domain_def sorted_append)
next
  case False
  with assms show ?thesis by (simp add: close_domain_def)
qed

text \<open>
  Claim C5. For every team, \<open>team_oncourt_steps\<close> returns two lists of the same
  length, never empty, raising nothing; every count is at least 0, the times are
  non-decreasing and within [0, 48], the first time is 0 and the last is 48.
\<close>

theorem team_oncourt_steps_shape:
  "\<exists>times counts. team_oncourt_steps team_v = Inr (times, counts) \<and>
      length times = length counts \<and> times \<noteq> [] \<and>
      (\<forall>c\<in>set counts. 0 \<le> c) \<and> sorted times \<and> (\<forall>t\<in>set times. 0 \<le> t \<and> t \<le> 48) \<and>
      hd times = 0 \<and> last times = 48"
proof -
  let ?evs = "sorted_events team_v"
  let ?pts = "emit True 0 0 ?evs"
  let ?kept = "hd ?pts # tidy (hd ?pts) (tl ?pts)"
  have ne: "?pts \<noteq> []" by (rule emit_nonempty [OF sorted_events_nonempty])
  have hd: "hd ?pts = (0, 0)" by (rule emit_True_hd [OF sorted_events_nonempty])
  have times_ge: "\<forall>t\<in>set (map fst ?evs). 0 \<le> t"
    using sorted_events_range [of _ _ team_v] by auto
  have "sorted (map fst ?evs)" by (rule sorted_times [OF sorted_events_sorted])
  with times_ge have "sorted (0 # map fst ?evs)" by simp
  then have s_pts: "sorted (map fst ?pts)" by (rule emit_sorted)
  have r_pts: "\<forall>p\<in>set ?pts. 0 \<le> fst p \<and> fst p \<le> 48 \<and> 0 \<le> snd p"
  proof
    fix p assume p: "p \<in> set ?pts"
    then have "fst p \<in> insert 0 (fst ` set ?evs)" using emit_times [of True 0 0 ?evs] by auto
    then have t: "0 \<le> fst p \<and> fst p \<le> 48" using sorted_events_range [of _ _ team_v] by auto
    from p have "snd p \<in> set (map snd ?pts)" by simp
    from emit_counts [OF this] obtain n where "snd p = 0 + deltas (take n ?evs)" by blast
    with sorted_events_prefix [of n team_v] have "0 \<le> snd p" by simp
    with t show "0 \<le> fst p \<and> fst p \<le> 48 \<and> 0 \<le> snd p" by simp
  qed
  have pts: "?pts = hd ?pts # tl ?pts" using ne by simp
  have sub: "set ?kept \<subseteq> set ?pts"
    using tidy_subset [of "hd ?pts" "tl ?pts"] ne by (auto dest: list.set_sel(2))
  have s_tl: "sorted (map fst (tl ?pts))" using s_pts by (simp add: sorted_tl map_tl)
  have "\<forall>q\<in>set (tidy (hd ?pts) (tl ?pts)). fst (hd ?pts) \<le> fst q"
  proof
    fix q assume "q \<in> set (tidy (hd ?pts) (tl ?pts))"
    then have "q \<in> set (tl ?pts)" using tidy_subset by blast
    moreover have "sorted (map fst (hd ?pts # tl ?pts))" using s_pts pts by simp
    ultimately show "fst (hd ?pts) \<le> fst q" by auto
  qed
  with tidy_sorted [OF s_tl] have s_kept: "sorted (map fst ?kept)" by simp
  have r_kept: "\<forall>p\<in>set ?kept. 0 \<le> fst p \<and> fst p \<le> 48 \<and> 0 \<le> snd p"
    using sub r_pts by blast
  have k_ne: "?kept \<noteq> []" by simp
  note cd = close_domain_props [OF k_ne s_kept r_kept]
  let ?out = "close_domain ?kept"
  have res: "team_oncourt_steps team_v = Inr (map fst ?out, map snd ?out)"
    by (rule team_oncourt_steps_points [OF sorted_events_nonempty])
  have a: "length (map fst ?out) = length (map snd ?out)" by simp
  have b: "map fst ?out \<noteq> []" using cd by simp
  have c: "\<forall>c\<in>set (map snd ?out). 0 \<le> c" using cd by auto
  have d: "sorted (map fst ?out)" using cd by blast
  have e: "\<forall>t\<in>set (map fst ?out). 0 \<le> t \<and> t \<le> 48" using cd by auto
  have o_ne: "?out \<noteq> []" using cd by blast
  have "hd ?out = hd ?kept" using cd by blast
  also have "\<dots> = (0, 0)" by (simp only: list.sel hd)
  finally have h0: "fst (hd ?out) = 0" by simp
  have f: "hd (map fst ?out) = 0" unfolding hd_map [OF o_ne] by (rule h0)
  have l48: "fst (last ?out) = 48" using cd by blast
  have g: "last (map fst ?out) = 48" unfolding last_map [OF o_ne] by (rule l48)
  from res a b c d e f g show ?thesis by blast
qed

lemma empty_team_eval: "team_oncourt_steps (example_team []) = Inr ([0, 48], [0, 0])"
  by code_simp

theorem team_oncourt_steps_shape_witness:
  "\<exists>times counts. team_oncourt_steps (example_team []) = Inr (times, counts) \<and>
      sorted times \<and> hd times = 0 \<and> last times = 48 \<and> counts = [0, 0]"
proof -
  from team_oncourt_steps_shape [of "example_team []"] obtain times counts where
    r: "team_oncourt_steps (example_team []) = Inr (times, counts)" and
    p: "sorted times" "hd times = 0" "last times = 48"
    by blast
  from r have "counts = [0, 0]" by (simp add: empty_team_eval)
  with r p show ?thesis by blast
qed

section \<open>The tie-break at equal times\<close>

lemma running_count_deltas: "running_count es m = deltas (take m es)"
  by (simp add: running_count_def walk_emit deltas_def)

lemma deltas_take_split:
  "n \<le> m \<Longrightarrow> deltas (take m es) = deltas (take n es) + deltas (drop n (take m es))"
proof -
  assume "n \<le> m"
  then have "take n (take m es) = take n es" by (simp add: min_def)
  then have "take m es = take n es @ drop n (take m es)"
    by (metis append_take_drop_id)
  then show ?thesis by (metis deltas_append)
qed

lemma deltas_nonpos: "\<forall>e\<in>set es. snd e \<le> 0 \<Longrightarrow> deltas es \<le> 0"
  by (induction es) (auto simp: deltas_def)

lemma deltas_nonneg: "\<forall>e\<in>set es. 0 \<le> snd e \<Longrightarrow> 0 \<le> deltas es"
  by (induction es) (auto simp: deltas_def)

lemma in_slice:
  assumes "e \<in> set (drop n (take m es))" and "m \<le> length es"
  shows "\<exists>i. n \<le> i \<and> i < m \<and> e = es ! i"
proof -
  from assms(1) obtain j where j: "j < length (drop n (take m es))" "drop n (take m es) ! j = e"
    by (auto simp: in_set_conv_nth)
  with assms(2) have "n + j < m" by simp
  moreover from j assms(2) have "e = es ! (n + j)" by simp
  ultimately show ?thesis by (intro exI [of _ "n + j"]) simp
qed

lemma sorted_tie_order:
  fixes es :: "(real \<times> int) list"
  assumes "sorted es" "i < j" "j < length es" "fst (es ! i) = fst (es ! j)"
  shows "snd (es ! i) \<le> snd (es ! j)"
proof -
  from assms(1-3) have "es ! i \<le> es ! j" by (simp add: sorted_nth_mono)
  with assms(4) show ?thesis by (simp add: less_eq_prod_def)
qed

lemma tie_run_bound:
  fixes es :: "(real \<times> int) list"
  assumes srt: "sorted es" and "n \<le> m" "m \<le> k" "k \<le> length es"
    and tie: "\<forall>i. n \<le> i \<and> i < k \<longrightarrow> fst (es ! i) = t"
  shows "running_count es m \<le> max (running_count es n) (running_count es k)"
proof -
  have order: "\<forall>i j. n \<le> i \<and> i < j \<and> j < k \<longrightarrow> snd (es ! i) \<le> snd (es ! j)"
  proof (intro allI impI)
    fix i j assume a: "n \<le> i \<and> i < j \<and> j < k"
    with tie have "fst (es ! i) = t" "fst (es ! j) = t" by simp_all
    with a assms(4) show "snd (es ! i) \<le> snd (es ! j)"
      by (intro sorted_tie_order [OF srt]) simp_all
  qed
  let ?B = "drop n (take m es)" and ?C = "drop m (take k es)"
  have mB: "deltas (take m es) = deltas (take n es) + deltas ?B"
    by (rule deltas_take_split [OF assms(2)])
  have kC: "deltas (take k es) = deltas (take m es) + deltas ?C"
    by (rule deltas_take_split [OF assms(3)])
  have ml: "m \<le> length es" using assms(3,4) by simp
  have "deltas (take m es) \<le> max (deltas (take n es)) (deltas (take k es))"
  proof (cases "\<forall>e\<in>set ?B. snd e \<le> 0")
    case True
    then have "deltas ?B \<le> 0" by (rule deltas_nonpos)
    with mB show ?thesis by simp
  next
    case False
    then obtain e where e: "e \<in> set ?B" "0 < snd e" by force
    from in_slice [OF e(1) ml] obtain i where i: "n \<le> i" "i < m" "e = es ! i" by blast
    have "\<forall>c\<in>set ?C. 0 \<le> snd c"
    proof
      fix c assume "c \<in> set ?C"
      from in_slice [OF this assms(4)] obtain j where j: "m \<le> j" "j < k" "c = es ! j" by blast
      with i order have "snd (es ! i) \<le> snd (es ! j)" by simp
      with e(2) i(3) j(3) show "0 \<le> snd c" by simp
    qed
    then have "0 \<le> deltas ?C" by (rule deltas_nonneg)
    with kC show ?thesis by simp
  qed
  then show ?thesis by (simp only: running_count_deltas)
qed

text \<open>
  In a list sorted on a key, the elements that satisfy a property closed towards
  smaller keys are exactly those at the first positions.
\<close>

lemma sorted_filter_prefix:
  fixes f :: "'a \<Rightarrow> real"
  assumes down: "\<And>a b. f a \<le> f b \<Longrightarrow> P b \<Longrightarrow> P a"
  shows "sorted (map f es) \<Longrightarrow> i < length es \<Longrightarrow> P (es ! i) = (i < length (filter P es))"
proof (induction es arbitrary: i)
  case Nil
  then show ?case by simp
next
  case (Cons e es)
  from Cons.prems(1) have s: "sorted (map f es)" and le: "\<forall>x\<in>set es. f e \<le> f x" by auto
  show ?case
  proof (cases "P e")
    case True
    show ?thesis
    proof (cases i)
      case 0
      with True show ?thesis by simp
    next
      case (Suc j)
      with Cons.prems(2) have "j < length es" by simp
      from Cons.IH [OF s this] True Suc show ?thesis by simp
    qed
  next
    case False
    have none: "\<forall>x\<in>set es. \<not> P x"
    proof
      fix x assume "x \<in> set es"
      with le have "f e \<le> f x" by blast
      with False down show "\<not> P x" by blast
    qed
    then have empty: "filter P es = []" by (simp add: filter_empty_conv)
    have "\<not> P ((e # es) ! i)"
    proof (cases i)
      case 0
      with False show ?thesis by simp
    next
      case (Suc j)
      with Cons.prems(2) have "es ! j \<in> set es" by simp
      with none Suc show ?thesis by simp
    qed
    with False empty show ?thesis by simp
  qed
qed

lemma group_positions:
  fixes es :: "(real \<times> int) list"
  assumes "sorted (map fst es)" "i < length es"
  shows "(fst (es ! i) = t) = (group_start es t \<le> i \<and> i < group_end es t)"
proof -
  have a: "(fst (es ! i) < t) = (i < group_start es t)"
    unfolding group_start_def
    by (rule sorted_filter_prefix [where f = fst, OF _ assms]) simp
  have b: "(fst (es ! i) \<le> t) = (i < group_end es t)"
    unfolding group_end_def
    by (rule sorted_filter_prefix [where f = fst, OF _ assms]) simp
  from a b show ?thesis by auto
qed

lemma group_end_le_length: "group_end es t \<le> length es"
  unfolding group_end_def by (rule length_filter_le)

text \<open>
  Claim C8. In the sorted events any two events at the same time come in the order of
  their deltas, wherever they stand: every \<open>-1\<close> is processed before every \<open>0\<close> and every
  \<open>+1\<close> of that time. The events at time \<open>t\<close> are those at the positions from
  \<open>group_start\<close> up to \<open>group_end\<close>, and the running count at any point \<open>m\<close> of that
  group is at most the larger of the count before all events at \<open>t\<close> and the count after
  all of them.
\<close>

theorem tie_break_no_spike:
  "(\<forall>i j. i < j \<and> j < length (sorted_events team_v) \<and>
           fst (sorted_events team_v ! i) = fst (sorted_events team_v ! j) \<longrightarrow>
           snd (sorted_events team_v ! i) \<le> snd (sorted_events team_v ! j)) \<and>
   (\<forall>i<length (sorted_events team_v).
      (fst (sorted_events team_v ! i) = t) =
        (group_start (sorted_events team_v) t \<le> i \<and> i < group_end (sorted_events team_v) t)) \<and>
   (\<forall>m. group_start (sorted_events team_v) t \<le> m \<and> m \<le> group_end (sorted_events team_v) t \<longrightarrow>
      running_count (sorted_events team_v) m \<le>
        max (running_count (sorted_events team_v) (group_start (sorted_events team_v) t))
            (running_count (sorted_events team_v) (group_end (sorted_events team_v) t)))"
proof -
  let ?evs = "sorted_events team_v"
  have srt: "sorted ?evs" by (rule sorted_events_sorted)
  have st: "sorted (map fst ?evs)" by (rule sorted_times [OF srt])
  have order: "\<forall>i j. i < j \<and> j < length ?evs \<and> fst (?evs ! i) = fst (?evs ! j) \<longrightarrow>
      snd (?evs ! i) \<le> snd (?evs ! j)"
    using sorted_tie_order [OF srt] by blast
  have pos: "\<forall>i<length ?evs. (fst (?evs ! i) = t) = (group_start ?evs t \<le> i \<and> i < group_end ?evs t)"
    using group_positions [OF st] by blast
  have bound: "\<forall>m. group_start ?evs t \<le> m \<and> m \<le> group_end ?evs t \<longrightarrow>
      running_count ?evs m \<le>
        max (running_count ?evs (group_start ?evs t)) (running_count ?evs (group_end ?evs t))"
  proof (intro allI impI)
    fix m assume m: "group_start ?evs t \<le> m \<and> m \<le> group_end ?evs t"
    have tie: "\<forall>i. group_start ?evs t \<le> i \<and> i < group_end ?evs t \<longrightarrow> fst (?evs ! i) = t"
    proof (intro allI impI)
      fix i assume i: "group_start ?evs t \<le> i \<and> i < group_end ?evs t"
      then have "i < length ?evs" using group_end_le_length [of ?evs t] by simp
      with pos i show "fst (?evs ! i) = t" by blast
    qed
    from m show "running_count ?evs m \<le>
        max (running_count ?evs (group_start ?evs t)) (running_count ?evs (group_end ?evs t))"
      by (intro tie_run_bound [OF srt _ _ group_end_le_length tie]) simp_all
  qed
  from order pos bound show ?thesis by blast
qed

lemma tie_team_unsorted_eval:
  "team_events tie_team =
     [(20, 1), (30, - 1), (0, 1), (20, - 1), (24, 1), (34, - 1), (38, 1), (48, - 1), (0, 0), (48, 0)]"
  unfolding tie_team_def by code_simp

lemma tie_team_events_eval:
  "sorted_events tie_team =
     [(0, 0), (0, 1), (20, - 1), (20, 1), (24, 1), (30, - 1), (34, - 1), (38, 1), (48, - 1), (48, 0)]"
  unfolding tie_team_def by code_simp

lemma tie_team_counts_eval:
  "running_count (sorted_events tie_team) 2 = 1 \<and> running_count (sorted_events tie_team) 3 = 0 \<and>
   running_count (sorted_events tie_team) 4 = 1"
  unfolding tie_team_def by code_simp

lemma tie_team_group_eval:
  "group_start (sorted_events tie_team) 20 = 2 \<and> group_end (sorted_events tie_team) 20 = 4"
  unfolding tie_team_def by code_simp

theorem tie_break_no_spike_witness:
  "team_events tie_team ! 0 = (20, 1) \<and> team_events tie_team ! 3 = (20, - 1) \<and>
   sorted_events tie_team ! 2 = (20, - 1) \<and> sorted_events tie_team ! 3 = (20, 1) \<and>
   snd (sorted_events tie_team ! 2) \<le> snd (sorted_events tie_team ! 3) \<and>
   group_start (sorted_events tie_team) 20 = 2 \<and> group_end (sorted_events tie_team) 20 = 4 \<and>
   running_count (sorted_events tie_team) 3 \<le>
     max (running_count (sorted_events tie_team) (group_start (sorted_events tie_team) 20))
         (running_count (sorted_events tie_team) (group_end (sorted_events tie_team) 20)) \<and>
   running_count (sorted_events tie_team) 2 = 1 \<and> running_count (sorted_events tie_team) 3 = 0 \<and>
   running_count (sorted_events tie_team) 4 = 1"
proof -
  let ?evs = "sorted_events tie_team"
  note t = tie_break_no_spike [of tie_team 20]
  have u: "team_events tie_team ! 0 = (20, 1) \<and> team_events tie_team ! 3 = (20, - 1)"
    by (simp add: tie_team_unsorted_eval)
  have s: "?evs ! 2 = (20, - 1) \<and> ?evs ! 3 = (20, 1)"
    by (simp add: tie_team_events_eval)
  have h: "(2::nat) < 3 \<and> 3 < length ?evs \<and> fst (?evs ! 2) = fst (?evs ! 3)"
    by (simp add: tie_team_events_eval)
  from t have "\<forall>i j. i < j \<and> j < length ?evs \<and> fst (?evs ! i) = fst (?evs ! j) \<longrightarrow>
      snd (?evs ! i) \<le> snd (?evs ! j)" by blast
  with h have o: "snd (?evs ! 2) \<le> snd (?evs ! 3)" by blast
  have g: "group_start ?evs 20 = 2 \<and> group_end ?evs 20 = 4" by (rule tie_team_group_eval)
  then have m: "group_start ?evs 20 \<le> 3 \<and> 3 \<le> group_end ?evs 20" by simp
  from t have "\<forall>m. group_start ?evs 20 \<le> m \<and> m \<le> group_end ?evs 20 \<longrightarrow>
      running_count ?evs m \<le>
        max (running_count ?evs (group_start ?evs 20)) (running_count ?evs (group_end ?evs 20))"
    by blast
  with m have b: "running_count ?evs 3 \<le>
        max (running_count ?evs (group_start ?evs 20)) (running_count ?evs (group_end ?evs 20))"
    by blast
  from u s o g b tie_team_counts_eval show ?thesis by blast
qed

section \<open>The points of one event time\<close>

lemma walk_points_emit: "walk_points es = emit True 0 0 es"
  by (simp add: walk_points_def walk_emit zip_map_fst_snd)

lemma emit_append:
  "emit first cur lt (A @ B) =
     emit first cur lt A @
     emit (first \<and> A = []) (cur + deltas A) (if A = [] then lt else fst (last A)) B"
proof (induction A arbitrary: first cur lt)
  case Nil
  show ?case by (simp add: deltas_def)
next
  case (Cons e A)
  obtain t d where e: "e = (t, d)" by (cases e)
  show ?case by (simp add: e Cons.IH deltas_def add.assoc)
qed

lemma emit_False_times: "p \<in> set (emit False cur lt es) \<Longrightarrow> fst p \<in> fst ` set es"
proof (induction es arbitrary: cur lt)
  case Nil
  then show ?case by simp
next
  case (Cons e es)
  obtain t d where e: "e = (t, d)" by (cases e)
  from Cons.prems consider "fst p = t" | "p \<in> set (emit False (cur + d) t es)"
    by (auto simp: e split: if_splits)
  then show ?case
  proof cases
    case 1 then show ?thesis by (simp add: e)
  next
    case 2 from Cons.IH [OF 2] show ?thesis by simp
  qed
qed

lemma emit_same_time:
  "\<forall>e\<in>set G. fst e = t \<Longrightarrow>
   emit False c t G = map (\<lambda>i. (t, c + deltas (take (Suc i) G))) [0..<length G]"
proof (induction G arbitrary: c)
  case Nil
  show ?case by simp
next
  case (Cons e G)
  obtain d where e: "e = (t, d)" using Cons.prems by (cases e) simp
  from Cons.prems have all: "\<forall>e\<in>set G. fst e = t" by simp
  have up: "[0..<length (e # G)] = 0 # map Suc [0..<length G]"
    by (simp add: upt_conv_Cons map_Suc_upt del: upt_Suc)
  have "emit False c t (e # G) = (t, c + d) # emit False (c + d) t G" by (simp add: e)
  also have "\<dots> = (t, c + d) # map (\<lambda>i. (t, c + d + deltas (take (Suc i) G))) [0..<length G]"
    by (simp only: Cons.IH [OF all])
  also have "\<dots> = map (\<lambda>i. (t, c + deltas (take (Suc i) (e # G)))) [0..<length (e # G)]"
    unfolding up by (simp add: e deltas_def comp_def)
  finally show ?case .
qed

lemma points_at_none: "\<forall>p\<in>set ps. fst p \<noteq> t \<Longrightarrow> points_at t ps = []"
  by (simp add: points_at_def filter_empty_conv)

lemma points_at_append: "points_at t (ps @ qs) = points_at t ps @ points_at t qs"
  by (simp add: points_at_def)

lemma emit_group:
  assumes "G \<noteq> []" and g: "\<forall>e\<in>set G. fst e = t" and a: "\<forall>e\<in>set A. fst e \<noteq> t"
    and b: "\<forall>e\<in>set B. fst e \<noteq> t" and z: "A \<noteq> [] \<longrightarrow> t \<noteq> 0"
  shows "points_at t (emit True 0 0 (A @ G @ B)) =
           (t, deltas A) # map (\<lambda>i. (t, deltas A + deltas (take (Suc i) G))) [0..<length G]"
proof -
  obtain d G' where G: "G = (t, d) # G'" using assms(1) g by (cases G) auto
  from g G have g': "\<forall>e\<in>set G'. fst e = t" by simp
  let ?run = "map (\<lambda>i. (t, deltas A + deltas (take (Suc i) G))) [0..<length G]"
  have up: "[0..<length G] = 0 # map Suc [0..<length G']"
    by (simp add: G upt_conv_Cons map_Suc_upt del: upt_Suc)
  have run: "?run = (t, deltas A + d) # emit False (deltas A + d) t G'"
    unfolding up by (simp add: emit_same_time [OF g'] G deltas_def comp_def)
  have tail: "\<forall>p\<in>set (emit False c t G'). fst p = t" for c
    using emit_False_times g' by fastforce
  have pB: "points_at t (emit False c t B) = []" for c
    by (rule points_at_none) (use emit_False_times b in fastforce)
  have split: "emit True 0 0 (A @ G @ B) =
      emit True 0 0 A @
      emit (A = []) (deltas A) (if A = [] then 0 else fst (last A)) G @
      emit False (deltas A + deltas G) t B"
    using assms(1) g by (simp add: emit_append deltas_append G) (simp add: deltas_def add.assoc)
  have pA: "points_at t (emit True 0 0 A) = []"
  proof (cases "A = []")
    case True
    then show ?thesis by (simp add: points_at_def)
  next
    case False
    with z have "t \<noteq> 0" by simp
    show ?thesis
    proof (rule points_at_none, rule ballI)
      fix p assume "p \<in> set (emit True 0 0 A)"
      from emit_point_time [OF this] a \<open>t \<noteq> 0\<close> show "fst p \<noteq> t" by auto
    qed
  qed
  have pG: "points_at t (emit (A = []) (deltas A) (if A = [] then 0 else fst (last A)) G) =
      (t, deltas A) # ?run"
  proof (cases "A = []")
    case True
    have "points_at t (emit True 0 0 G) = (t, 0) # (t, d) # emit False d t G'"
      using tail [of d] by (auto simp: G points_at_def filter_id_conv)
    moreover have "deltas [] = 0" by (simp add: deltas_def)
    ultimately show ?thesis using True run by simp
  next
    case False
    then have "fst (last A) \<noteq> t" using a by simp
    then have "points_at t (emit False (deltas A) (fst (last A)) G) =
        (t, deltas A) # (t, deltas A + d) # emit False (deltas A + d) t G'"
      using tail [of "deltas A + d"] by (auto simp: G points_at_def filter_id_conv)
    with False show ?thesis by (simp add: run)
  qed
  show ?thesis
    unfolding split points_at_append pA pG pB by simp
qed

lemma sorted_prefix_times:
  fixes A :: "(real \<times> int) list"
  assumes "sorted (A @ G @ B)" "a \<in> set A" "g \<in> set G"
  shows "fst a \<le> fst g"
proof -
  from assms have "a \<le> g" by (auto simp: sorted_append)
  then show ?thesis by (auto simp: less_eq_prod_def)
qed

text \<open>
  Claim C7, as the code has it. Let the sorted events be \<open>A @ G @ B\<close> with \<open>G\<close> all the
  events at time \<open>t\<close>. The walk appends, at time \<open>t\<close>, the count before the group and
  then the running count after each event of the group, the last one being the count
  after the group: one point per event, so the intermediate counts are there. The
  result is those points with each point dropped that has the count of the last point
  kept and a time close to it, closed by a point at 48.
\<close>

theorem walk_emits_running_counts:
  assumes ev: "sorted_events team_v = A @ G @ B" and ne: "G \<noteq> []"
    and g: "\<forall>e\<in>set G. fst e = t" and a: "\<forall>e\<in>set A. fst e \<noteq> t"
    and b: "\<forall>e\<in>set B. fst e \<noteq> t"
  shows "points_at t (walk_points (sorted_events team_v)) =
           (t, deltas A) # map (\<lambda>i. (t, deltas A + deltas (take (Suc i) G))) [0..<length G] \<and>
         team_oncourt_steps team_v =
           Inr (map fst (close_domain
                  (hd (walk_points (sorted_events team_v)) #
                   tidy (hd (walk_points (sorted_events team_v)))
                        (tl (walk_points (sorted_events team_v))))),
                map snd (close_domain
                  (hd (walk_points (sorted_events team_v)) #
                   tidy (hd (walk_points (sorted_events team_v)))
                        (tl (walk_points (sorted_events team_v))))))"
proof -
  have z: "A \<noteq> [] \<longrightarrow> t \<noteq> 0"
  proof
    assume "A \<noteq> []"
    then obtain x where x: "x \<in> set A" by (cases A) auto
    from ne obtain y where y: "y \<in> set G" by (cases G) auto
    have s: "sorted (A @ G @ B)" using sorted_events_sorted [of team_v] by (simp only: ev)
    from sorted_prefix_times [OF s x y] g y have "fst x \<le> t" by simp
    with a x have lt: "fst x < t" by force
    have "x \<in> set (sorted_events team_v)" using x by (simp add: ev)
    then have "0 \<le> fst x" using sorted_events_range [of "fst x" "snd x" team_v] by simp
    with lt show "t \<noteq> 0" by simp
  qed
  have p: "points_at t (walk_points (sorted_events team_v)) =
           (t, deltas A) # map (\<lambda>i. (t, deltas A + deltas (take (Suc i) G))) [0..<length G]"
    unfolding walk_points_emit ev by (rule emit_group [OF ne g a b z])
  have q: "team_oncourt_steps team_v =
           Inr (map fst (close_domain
                  (hd (walk_points (sorted_events team_v)) #
                   tidy (hd (walk_points (sorted_events team_v)))
                        (tl (walk_points (sorted_events team_v))))),
                map snd (close_domain
                  (hd (walk_points (sorted_events team_v)) #
                   tidy (hd (walk_points (sorted_events team_v)))
                        (tl (walk_points (sorted_events team_v))))))"
    unfolding walk_points_emit by (rule team_oncourt_steps_points [OF sorted_events_nonempty])
  from p q show ?thesis by blast
qed

lemma two_on_events_eval:
  "sorted_events two_on_team =
     [] @ [(0, 0), (0, 1), (0, 1)] @
     [(10, - 1), (10, - 1), (19, 1), (19, 1), (29, - 1), (29, - 1), (38, 1), (38, 1),
      (48, - 1), (48, - 1), (48, 0)]"
  unfolding two_on_team_def by code_simp

lemma two_on_steps_eval:
  "team_oncourt_steps two_on_team =
     Inr ([0, 0, 0, 10, 10, 10, 19, 19, 19, 29, 29, 29, 38, 38, 38, 48, 48, 48],
          [0, 1, 2, 2, 1, 0, 0, 1, 2, 2, 1, 0, 0, 1, 2, 2, 1, 0])"
  unfolding two_on_team_def by code_simp

theorem walk_emits_running_counts_witness:
  "sorted_events two_on_team =
     [] @ [(0, 0), (0, 1), (0, 1)] @
     [(10, - 1), (10, - 1), (19, 1), (19, 1), (29, - 1), (29, - 1), (38, 1), (38, 1),
      (48, - 1), (48, - 1), (48, 0)] \<and>
   points_at 0 (walk_points (sorted_events two_on_team)) = [(0, 0), (0, 0), (0, 1), (0, 2)]"
proof -
  let ?G = "[(0, 0), (0, 1), (0, 1)] :: (real \<times> int) list"
  let ?B = "[(10, - 1), (10, - 1), (19, 1), (19, 1), (29, - 1), (29, - 1), (38, 1), (38, 1),
      (48, - 1), (48, - 1), (48, 0)] :: (real \<times> int) list"
  have g: "\<forall>e\<in>set ?G. fst e = 0" by simp
  have a: "\<forall>e\<in>set ([] :: (real \<times> int) list). fst e \<noteq> 0" by simp
  have b: "\<forall>e\<in>set ?B. fst e \<noteq> 0" by simp
  have ne: "?G \<noteq> []" by simp
  from walk_emits_running_counts [OF two_on_events_eval ne g a b]
  have "points_at 0 (walk_points (sorted_events two_on_team)) =
      (0, deltas []) # map (\<lambda>i. (0, deltas [] + deltas (take (Suc i) ?G))) [0..<length ?G]"
    by blast
  then have "points_at 0 (walk_points (sorted_events two_on_team)) = [(0, 0), (0, 0), (0, 1), (0, 2)]"
    by (simp add: deltas_def)
  with two_on_events_eval show ?thesis by blast
qed

text \<open>
  The claim as stated fails: with two players entering at minute 0 the result has
  three points at time 0, the middle one the intermediate count 1.
\<close>

theorem walk_emits_running_counts_counterexample:
  "team_oncourt_steps two_on_team =
     Inr ([0, 0, 0, 10, 10, 10, 19, 19, 19, 29, 29, 29, 38, 38, 38, 48, 48, 48],
          [0, 1, 2, 2, 1, 0, 0, 1, 2, 2, 1, 0, 0, 1, 2, 2, 1, 0]) \<and>
   points_at 0 (zip [0, 0, 0, 10, 10, 10, 19, 19, 19, 29, 29, 29, 38, 38, 38, 48, 48, 48]
                    [0, 1, 2, 2, 1, 0, 0, 1, 2, 2, 1, 0, 0, 1, 2, 2, 1, 0]) =
     [(0, 0), (0, 1), (0, 2)]"
  by (simp add: two_on_steps_eval points_at_def)

section \<open>The round trip through the boundaries\<close>

lemma chain_append:
  "chain t (xs @ ys) = (chain t xs \<and> chain (chain_end t xs) ys)"
  by (induction xs arbitrary: t) (auto simp: chain_end_def)

lemma chain_butlast: "chain t segs \<Longrightarrow> chain t (butlast segs)"
proof (cases "segs = []")
  case True
  then show ?thesis by simp
next
  case False
  assume "chain t segs"
  then have "chain t (butlast segs @ [last segs])" using False by simp
  then show ?thesis by (simp only: chain_append)
qed

lemma chain_last_start:
  assumes "chain t segs" "segs \<noteq> []"
  shows "seg_start (last segs) = chain_end t (butlast segs)"
proof -
  from assms have "chain t (butlast segs @ [last segs])" by simp
  then show ?thesis by (simp add: chain_append)
qed

lemma chain_sum: "chain t segs \<Longrightarrow> sum_list (map seg_dur segs) = chain_end t segs - t"
proof (induction segs arbitrary: t)
  case Nil
  show ?case by (simp add: chain_end_def)
next
  case (Cons sg segs)
  then have ih: "sum_list (map seg_dur segs) = chain_end (seg_end sg) segs - seg_end sg" by simp
  from Cons.prems have d: "seg_dur sg = seg_end sg - t" by (simp add: seg_dur_def)
  have e: "chain_end t (sg # segs) = chain_end (seg_end sg) segs" by (simp add: chain_end_def)
  show ?case by (simp add: ih d e)
qed

lemma chain_dur_nonneg: "chain t segs \<Longrightarrow> sg \<in> set segs \<Longrightarrow> 0 \<le> seg_dur sg"
  using chain_set [of t segs sg] by (simp add: seg_dur_def)

lemma accumulate_chain:
  "chain t segs \<Longrightarrow> accumulate t (zip (map seg_dur segs) (map seg_tag segs)) = segs"
proof (induction segs arbitrary: t)
  case Nil
  show ?case by simp
next
  case (Cons sg segs)
  from Cons.prems have a: "seg_start sg = t" "t \<le> seg_end sg" "seg_end sg \<le> 48"
    and c: "chain (seg_end sg) segs" by simp_all
  from a have m: "min 48 (t + max 0 (seg_dur sg)) = seg_end sg" by (simp add: seg_dur_def)
  have "sg = (t, seg_end sg, seg_tag sg)"
    using a(1) by (cases sg) (simp add: seg_start_def seg_end_def seg_tag_def)
  with m Cons.IH [OF c] show ?case by simp
qed

lemma force_last_end_id:
  assumes "segs \<noteq> []" "seg_end (last segs) = 48"
  shows "force_last_end segs = segs"
proof -
  have "(seg_start (last segs), 48, seg_tag (last segs)) = last segs"
    using assms(2) by (cases "last segs") (simp add: seg_start_def seg_end_def seg_tag_def)
  moreover have "segs[length segs - 1 := last segs] = segs"
    using assms(1) by (simp add: last_conv_nth)
  ultimately show ?thesis using assms(1) by (simp add: force_last_end_def)
qed

lemma increasing_ends_Cons:
  "increasing_ends lst (e # es) =
     max (lst + 1 / 1000) (min 48 e) # increasing_ends (max (lst + 1 / 1000) (min 48 e)) es"
  by (simp add: Let_def)

lemma increasing_ends_chain:
  assumes "chain t segs" and "\<forall>sg\<in>set segs. seg_start sg + 1 / 1000 \<le> seg_end sg"
  shows "increasing_ends t (map seg_end segs) = map seg_end segs"
  using assms
proof (induction segs arbitrary: t)
  case Nil
  show ?case by simp
next
  case (Cons sg segs)
  from Cons.prems have a: "seg_start sg = t" "seg_end sg \<le> 48" "t + 1 / 1000 \<le> seg_end sg"
    and c: "chain (seg_end sg) segs" by simp_all
  from a have m: "max (t + 1 / 1000) (min 48 (seg_end sg)) = seg_end sg" by simp
  from Cons.prems(2) have "\<forall>sg\<in>set segs. seg_start sg + 1 / 1000 \<le> seg_end sg" by simp
  from Cons.IH [OF c this] m show ?case by (simp add: increasing_ends_Cons del: increasing_ends.simps)
qed

lemma boundary_fold_chain:
  "chain t segs \<Longrightarrow>
   fold (\<lambda>e (seg_starts, seg_ends, t). (seg_starts @ [t], seg_ends @ [e], e))
        (map seg_end segs) (ss, ee, t) =
     (ss @ map seg_start segs, ee @ map seg_end segs, chain_end t segs)"
proof (induction segs arbitrary: ss ee t)
  case Nil
  show ?case by (simp add: chain_end_def)
next
  case (Cons sg segs)
  from Cons.prems have a: "seg_start sg = t" and c: "chain (seg_end sg) segs" by simp_all
  show ?case using Cons.IH [OF c, of "ss @ [t]" "ee @ [seg_end sg]"] a
    by (simp add: chain_end_def)
qed

lemma boundary_segments_chain:
  assumes "chain 0 segs" "segs \<noteq> []" "seg_end (last segs) = 48"
  shows "boundary_segments (map seg_end (butlast segs)) = (map seg_start segs, map seg_end segs)"
proof -
  have c: "chain 0 (butlast segs)" by (rule chain_butlast [OF assms(1)])
  have s: "segs = butlast segs @ [last segs]" using assms(2) by simp
  have "boundary_segments (map seg_end (butlast segs)) =
      (map seg_start (butlast segs) @ [chain_end 0 (butlast segs)],
       map seg_end (butlast segs) @ [48])"
    using boundary_fold_chain [OF c, of "[]" "[]"] by (simp add: boundary_segments_def)
  also have "\<dots> = (map seg_start (butlast segs) @ [seg_start (last segs)],
       map seg_end (butlast segs) @ [seg_end (last segs)])"
    by (simp add: chain_last_start [OF assms(1,2)] assms(3))
  also have "\<dots> = (map seg_start (butlast segs @ [last segs]), map seg_end (butlast segs @ [last segs]))"
    by simp
  finally show ?thesis by (simp only: s [symmetric])
qed

lemma prev_end_chain:
  assumes "chain 0 segs" "k < length segs"
  shows "prev_end (map seg_end segs) k = seg_start (segs ! k)"
proof (cases k)
  case 0
  with assms show ?thesis using chain_first [of 0 segs] by (auto simp: prev_end_def)
next
  case (Suc j)
  with assms show ?thesis using chain_contiguous [of 0 segs j] by (simp add: prev_end_def)
qed

lemma prev_end_Suc: "prev_end es (Suc k) = es ! k"
  by (simp add: prev_end_def)

lemma spaced_reach:
  fixes es :: "real list"
  assumes "\<forall>k<length es. prev_end es k + g \<le> es ! k"
  shows "k + j < length es \<Longrightarrow> es ! k + real j * g \<le> es ! (k + j)"
proof (induction j)
  case 0
  show ?case by simp
next
  case (Suc j)
  from Suc.prems have lt: "k + j < length es" and lt2: "Suc (k + j) < length es" by simp_all
  have ih: "es ! k + real j * g \<le> es ! (k + j)" by (rule Suc.IH [OF lt])
  from assms [rule_format, OF lt2] have step: "es ! (k + j) + g \<le> es ! Suc (k + j)"
    by (simp only: prev_end_Suc)
  have "es ! k + real (Suc j) * g = (es ! k + real j * g) + g" by (simp add: distrib_right)
  also have "\<dots> \<le> es ! (k + j) + g" using ih by simp
  also have "\<dots> \<le> es ! Suc (k + j)" by (rule step)
  finally show ?case by simp
qed

lemma spaced_upper:
  fixes es :: "real list"
  assumes gaps: "\<forall>k<length es. prev_end es k + g \<le> es ! k"
    and cap: "\<forall>k<length es. es ! k \<le> 48" and k: "k < length es"
  shows "es ! k \<le> 48 - real_of_int (int (Suc (length es)) - 2 - int k) * g"
proof -
  from k obtain j where len: "length es = Suc (k + j)" by (metis less_iff_Suc_add)
  then have kj: "k + j < length es" by simp
  have a: "es ! k + real j * g \<le> es ! (k + j)" by (rule spaced_reach [OF gaps kj])
  have b: "es ! (k + j) \<le> 48" by (rule cap [rule_format, OF kj])
  have "int (Suc (length es)) - 2 - int k = int j" unfolding len by simp
  then have c: "real_of_int (int (Suc (length es)) - 2 - int k) = real j" by simp
  from a b have "es ! k + real j * g \<le> 48" by (rule order_trans)
  then show ?thesis unfolding c by linarith
qed

lemma sanitize_state_id:
  assumes gaps: "\<forall>k<length es. prev_end es k + g \<le> es ! k"
    and upper: "\<forall>k<length es. es ! k \<le> 48 - real_of_int (int L - 2 - int k) * g"
  shows "n \<le> length es \<Longrightarrow>
     sanitize_state (\<lambda>x. x) L es g n = (take n es, prev_end es n)"
proof (induction n)
  case 0
  show ?case by (simp add: sanitize_state_0 prev_end_def)
next
  case (Suc n)
  then have st: "sanitize_state (\<lambda>x. x) L es g n = (take n es, prev_end es n)"
    and n: "n < length es" by simp_all
  from gaps n have lo: "prev_end es n + g \<le> es ! n" by blast
  from upper n have hi: "es ! n \<le> 48 - real_of_int (int L - 2 - int n) * g" by blast
  have pe: "prev_end es (Suc n) = es ! n" by (simp add: prev_end_def)
  have "sanitize_state (\<lambda>x. x) L es g (Suc n) =
      sanitize_step (\<lambda>x. x) L es g n (take n es, prev_end es n)"
    by (simp only: sanitize_state_Suc st)
  also have "\<dots> = (take n es @ [es ! n], es ! n)"
    using n lo hi by (simp add: sanitize_step_eq upper_bound_def)
  also have "\<dots> = (take (Suc n) es, prev_end es (Suc n))"
    using n by (simp add: take_Suc_conv_app_nth pe)
  finally show ?case .
qed

lemma sanitize_ends_id:
  assumes gaps: "\<forall>k<length es. prev_end es k + g \<le> es ! k" and cap: "\<forall>k<length es. es ! k \<le> 48"
  shows "sanitize_ends (\<lambda>x. x) (Suc (length es)) es g = es"
proof -
  have upper: "\<forall>k<length es. es ! k \<le> 48 - real_of_int (int (Suc (length es)) - 2 - int k) * g"
    using spaced_upper [OF gaps cap] by blast
  from sanitize_state_id [OF gaps upper, of "length es"] show ?thesis
    by (simp add: sanitize_ends_state)
qed

lemma fold_split_indices:
  "fold (\<lambda>(i, tag) (on_idx, off_idx).
           if tag = ''on'' then (on_idx @ [i], off_idx) else (on_idx, off_idx @ [i])) ps (a, b) =
     (a @ map fst (filter (\<lambda>p. snd p = ''on'') ps), b @ map fst (filter (\<lambda>p. snd p \<noteq> ''on'') ps))"
  by (induction ps arbitrary: a b) auto

lemma split_on_off_indices_resolved:
  "archetypes get_config aid = Some arch \<Longrightarrow>
   split_on_off_indices aid = (on_indices (stint_pattern arch), off_indices (stint_pattern arch))"
  by (simp add: split_on_off_indices_def fold_split_indices on_indices_def off_indices_def)

lemma enumerate_filter_set:
  "i \<in> set (map fst (filter Q (enumerate 0 xs))) \<longleftrightarrow> i < length xs \<and> Q (i, xs ! i)"
proof
  assume "i \<in> set (map fst (filter Q (enumerate 0 xs)))"
  then obtain p where p: "p \<in> set (enumerate 0 xs)" "Q p" "fst p = i" by auto
  from p(1) have "fst p < length xs" "snd p = xs ! fst p" by (simp_all add: in_set_enumerate_eq)
  with p(2,3) show "i < length xs \<and> Q (i, xs ! i)" by (metis prod.collapse)
next
  assume a: "i < length xs \<and> Q (i, xs ! i)"
  then have "(i, xs ! i) \<in> set (enumerate 0 xs)" by (simp add: in_set_enumerate_eq)
  with a have "(i, xs ! i) \<in> set (filter Q (enumerate 0 xs))" by simp
  then have "fst (i, xs ! i) \<in> fst ` set (filter Q (enumerate 0 xs))" by (rule imageI)
  then show "i \<in> set (map fst (filter Q (enumerate 0 xs)))" by simp
qed

lemma on_indices_set: "i \<in> set (on_indices pattern) \<longleftrightarrow> i < length pattern \<and> pattern ! i = ''on''"
  unfolding on_indices_def enumerate_filter_set by simp

lemma off_indices_set: "i \<in> set (off_indices pattern) \<longleftrightarrow> i < length pattern \<and> pattern ! i \<noteq> ''on''"
  unfolding off_indices_def enumerate_filter_set by simp

lemma sum_filter_split:
  fixes f :: "'a \<Rightarrow> real"
  shows "sum_list (map f (filter P xs)) + sum_list (map f (filter (\<lambda>x. \<not> P x) xs)) =
     sum_list (map f xs)"
  by (induction xs) (auto simp: algebra_simps)

lemma on_off_sum:
  fixes f :: "nat \<Rightarrow> real"
  shows "sum_list (map f (on_indices pattern)) + sum_list (map f (off_indices pattern)) =
     sum_list (map f [0..<length pattern])"
proof -
  have "sum_list (map f (on_indices pattern)) + sum_list (map f (off_indices pattern)) =
        sum_list (map (f \<circ> fst) (enumerate 0 pattern))"
    unfolding on_indices_def off_indices_def map_map
    by (rule sum_filter_split)
  also have "\<dots> = sum_list (map f (map fst (enumerate 0 pattern)))" by (simp only: map_map)
  finally show ?thesis by simp
qed

lemma fold_update_length: "length (fold (\<lambda>i r. r[i := f i]) idx r) = length r"
  by (induction idx arbitrary: r) auto

lemma fold_update_nth:
  "i < length r \<Longrightarrow> fold (\<lambda>j r. r[j := f j]) idx r ! i = (if i \<in> set idx then f i else r ! i)"
proof (induction idx arbitrary: r)
  case Nil
  show ?case by simp
next
  case (Cons j idx)
  have "i < length (r[j := f j])" using Cons.prems by simp
  from Cons.IH [OF this] Cons.prems show ?case by (auto simp: nth_list_update)
qed

lemma sum_list_divide: "sum_list (map (\<lambda>i. f i / (c::real)) xs) = sum_list (map f xs) / c"
  by (induction xs) (auto simp: add_divide_distrib)

lemma sum_list_zero_elems:
  fixes f :: "nat \<Rightarrow> real"
  assumes "\<forall>i\<in>set xs. 0 \<le> f i" "sum_list (map f xs) = 0" "i \<in> set xs"
  shows "f i = 0"
  using assms
proof (induction xs)
  case Nil
  then show ?case by simp
next
  case (Cons x xs)
  have nn: "0 \<le> sum_list (map f xs)" by (rule sum_list_nonneg) (use Cons.prems(1) in auto)
  from Cons.prems(1) have x: "0 \<le> f x" by simp
  from Cons.prems(2) have "f x + sum_list (map f xs) = 0" by simp
  with nn x have z: "f x = 0" "sum_list (map f xs) = 0" by linarith+
  show ?case
  proof (cases "i = x")
    case True
    with z show ?thesis by simp
  next
    case False
    with Cons.prems(3) have "i \<in> set xs" by simp
    with Cons.IH z(2) Cons.prems(1) show ?thesis by simp
  qed
qed

lemma resolved_archetype_Some:
  "resolved_archetype player = Some arch \<Longrightarrow>
   \<exists>aid. archetype_id player = Some aid \<and> aid \<noteq> [] \<and> archetypes get_config aid = Some arch"
  by (auto simp: resolved_archetype_def split: option.splits if_splits)

lemma ensure_default_percentages_resolved:
  assumes "resolved_archetype player = Some arch"
    and "stints_raw player @
           replicate (length (stint_pattern arch) - length (stints_raw player)) 0 = raw0"
  shows "ensure_default_percentages player =
     take (length (stint_pattern arch))
       ((if off_indices (stint_pattern arch) \<noteq> [] \<and>
            sum_list (map (\<lambda>i. raw0 ! i) (off_indices (stint_pattern arch))) = 0
         then fold (\<lambda>i r. r[i := 1 / real (length (off_indices (stint_pattern arch)))])
                   (off_indices (stint_pattern arch))
         else (\<lambda>r. r))
        ((if on_indices (stint_pattern arch) \<noteq> [] \<and>
             sum_list (map (\<lambda>i. raw0 ! i) (on_indices (stint_pattern arch))) = 0
          then fold (\<lambda>i r. r[i := 1 / real (length (on_indices (stint_pattern arch)))])
                    (on_indices (stint_pattern arch))
          else (\<lambda>r. r)) raw0))"
proof -
  from resolved_archetype_Some [OF assms(1)] obtain aid where
    aid: "archetype_id player = Some aid" "aid \<noteq> []" "archetypes get_config aid = Some arch"
    by blast
  show ?thesis
    by (simp add: ensure_default_percentages_def aid split_on_off_indices_resolved [OF aid(3)]
        Let_def assms(2))
qed

lemma apply_boundaries_resolved:
  assumes "resolved_archetype player = Some arch" "stint_pattern arch \<noteq> []"
    and "boundary_segments (sanitize_ends (\<lambda>x. x) (length (stint_pattern arch)) ends g) = (ss, ee)"
    and "map (\<lambda>i. max 0 (ee ! i - ss ! i)) [0..<length (stint_pattern arch)] = ds"
  shows "apply_boundaries player ends g =
     player\<lparr>expected_minutes :=
               max 0 (min 48 (sum_list (map (\<lambda>i. ds ! i) (on_indices (stint_pattern arch))))),
            stints_raw :=
               fold (\<lambda>i r. r[i := (if sum_list (map (\<lambda>i. ds ! i) (off_indices (stint_pattern arch))) > 0
                      then ds ! i / sum_list (map (\<lambda>i. ds ! i) (off_indices (stint_pattern arch)))
                      else 0)])
                 (off_indices (stint_pattern arch))
                 (fold (\<lambda>i r. r[i := (if sum_list (map (\<lambda>i. ds ! i) (on_indices (stint_pattern arch))) > 0
                      then ds ! i / sum_list (map (\<lambda>i. ds ! i) (on_indices (stint_pattern arch)))
                      else 0)])
                   (on_indices (stint_pattern arch))
                   (replicate (length (stint_pattern arch)) 0))\<rparr>"
proof -
  from resolved_archetype_Some [OF assms(1)] obtain aid where
    aid: "archetype_id player = Some aid" "aid \<noteq> []" "archetypes get_config aid = Some arch"
    by blast
  show ?thesis
    unfolding assms(4) [symmetric] using assms(2)
    by (simp add: apply_boundaries_def aid split_on_off_indices_resolved [OF aid(3)] Let_def
        assms(3))
qed

lemma fill_length:
  "length ((if c then fold (\<lambda>j r. r[j := f j]) idx else (\<lambda>r. r)) r) = length r"
  by (simp add: fold_update_length)

lemma ensure_default_percentages_length:
  assumes "resolved_archetype player = Some arch"
    and "length (stints_raw player) = length (stint_pattern arch)"
  shows "length (ensure_default_percentages player) = length (stint_pattern arch)"
proof -
  have r0: "stints_raw player @
      replicate (length (stint_pattern arch) - length (stints_raw player)) 0 = stints_raw player"
    using assms(2) by simp
  show ?thesis
    unfolding ensure_default_percentages_resolved [OF assms(1) r0]
    by (simp only: length_take fill_length assms(2) min.idem)
qed

lemma ensure_default_percentages_keep_on:
  assumes res: "resolved_archetype player = Some arch"
    and len: "length (stints_raw player) = length (stint_pattern arch)"
    and sum: "sum_list (map (\<lambda>j. stints_raw player ! j) (on_indices (stint_pattern arch))) \<noteq> 0"
    and i: "i < length (stint_pattern arch)" and tag: "stint_pattern arch ! i = ''on''"
  shows "ensure_default_percentages player ! i = stints_raw player ! i"
proof -
  let ?L = "length (stint_pattern arch)"
  have r0: "stints_raw player @ replicate (?L - length (stints_raw player)) 0 = stints_raw player"
    using len by simp
  have notoff: "i \<notin> set (off_indices (stint_pattern arch))" using tag by (simp add: off_indices_set)
  have il: "i < length (stints_raw player)" using i len by simp
  show ?thesis
    unfolding ensure_default_percentages_resolved [OF res r0]
    using sum i il notoff by (simp add: fold_update_nth fold_update_length)
qed

lemma ensure_default_percentages_keep_off:
  assumes res: "resolved_archetype player = Some arch"
    and len: "length (stints_raw player) = length (stint_pattern arch)"
    and sum: "sum_list (map (\<lambda>j. stints_raw player ! j) (off_indices (stint_pattern arch))) \<noteq> 0"
    and i: "i < length (stint_pattern arch)" and tag: "stint_pattern arch ! i \<noteq> ''on''"
  shows "ensure_default_percentages player ! i = stints_raw player ! i"
proof -
  let ?L = "length (stint_pattern arch)"
  have r0: "stints_raw player @ replicate (?L - length (stints_raw player)) 0 = stints_raw player"
    using len by simp
  have noton: "i \<notin> set (on_indices (stint_pattern arch))" using tag by (simp add: on_indices_set)
  have il: "i < length (stints_raw player)" using i len by simp
  show ?thesis
    unfolding ensure_default_percentages_resolved [OF res r0]
    using sum i il noton by (simp add: fold_update_nth fold_update_length)
qed

lemma stint_durations_nth:
  "i < length pattern \<Longrightarrow>
   stint_durations pattern raw a b ! i =
     (if pattern ! i = ''on''
      then (if a > 0 then (if i < length raw then raw ! i else 0) * a else 0)
      else (if b > 0 then (if i < length raw then raw ! i else 0) * b else 0))"
  by (simp add: stint_durations_def nth_enumerate_eq Let_def)

lemma reweigh_length: "length (reweigh pattern ds) = length pattern"
  by (simp add: reweigh_def fold_update_length)

lemma reweigh_on:
  assumes "i < length pattern" "pattern ! i = ''on''"
  shows "reweigh pattern ds ! i =
     (if group_total (on_indices pattern) ds > 0
      then ds ! i / group_total (on_indices pattern) ds else 0)"
proof -
  have "i \<notin> set (off_indices pattern)" using assms(2) by (simp add: off_indices_set)
  moreover have "i \<in> set (on_indices pattern)" using assms by (simp add: on_indices_set)
  ultimately show ?thesis
    using assms(1) by (simp add: reweigh_def fold_update_nth fold_update_length)
qed

lemma reweigh_off:
  assumes "i < length pattern" "pattern ! i \<noteq> ''on''"
  shows "reweigh pattern ds ! i =
     (if group_total (off_indices pattern) ds > 0
      then ds ! i / group_total (off_indices pattern) ds else 0)"
proof -
  have "i \<in> set (off_indices pattern)" using assms by (simp add: off_indices_set)
  then show ?thesis
    using assms(1) by (simp add: reweigh_def fold_update_nth fold_update_length)
qed

lemma reweigh_on_sum:
  assumes "group_total (on_indices pattern) ds > 0"
  shows "group_total (on_indices pattern) (reweigh pattern ds) = 1"
proof -
  let ?T = "group_total (on_indices pattern) ds"
  have "map (\<lambda>i. reweigh pattern ds ! i) (on_indices pattern) =
        map (\<lambda>i. ds ! i / ?T) (on_indices pattern)"
    using assms by (intro map_cong refl) (simp add: on_indices_set reweigh_on)
  then have "group_total (on_indices pattern) (reweigh pattern ds) =
        sum_list (map (\<lambda>i. ds ! i / ?T) (on_indices pattern))"
    by (simp only: group_total_def)
  also have "\<dots> = ?T / ?T" by (simp only: sum_list_divide group_total_def)
  finally show ?thesis using assms by simp
qed

lemma reweigh_off_sum:
  assumes "group_total (off_indices pattern) ds > 0"
  shows "group_total (off_indices pattern) (reweigh pattern ds) = 1"
proof -
  let ?T = "group_total (off_indices pattern) ds"
  have "map (\<lambda>i. reweigh pattern ds ! i) (off_indices pattern) =
        map (\<lambda>i. ds ! i / ?T) (off_indices pattern)"
    using assms by (intro map_cong refl) (simp add: off_indices_set reweigh_off)
  then have "group_total (off_indices pattern) (reweigh pattern ds) =
        sum_list (map (\<lambda>i. ds ! i / ?T) (off_indices pattern))"
    by (simp only: group_total_def)
  also have "\<dots> = ?T / ?T" by (simp only: sum_list_divide group_total_def)
  finally show ?thesis using assms by simp
qed

lemma group_total_nonneg:
  assumes "\<forall>i<length ds. 0 \<le> ds ! i" "\<forall>i\<in>set idx. i < length ds"
  shows "0 \<le> group_total idx ds"
  unfolding group_total_def by (rule sum_list_nonneg) (use assms in auto)

lemma group_total_zero:
  assumes "\<forall>i<length ds. 0 \<le> ds ! i" "\<forall>i\<in>set idx. i < length ds"
    "group_total idx ds = 0" "i \<in> set idx"
  shows "ds ! i = 0"
proof -
  have "\<forall>i\<in>set idx. 0 \<le> ds ! i" using assms(1,2) by blast
  from sum_list_zero_elems [OF this _ assms(4)] assms(3) show ?thesis
    by (simp add: group_total_def)
qed

lemma group_totals_sum:
  assumes "length ds = length pattern"
  shows "group_total (on_indices pattern) ds + group_total (off_indices pattern) ds = sum_list ds"
proof -
  have "group_total (on_indices pattern) ds + group_total (off_indices pattern) ds =
        sum_list (map (\<lambda>i. ds ! i) [0..<length pattern])"
    unfolding group_total_def by (rule on_off_sum)
  also have "\<dots> = sum_list ds" unfolding assms [symmetric] by (simp only: map_nth)
  finally show ?thesis .
qed

lemma compute_segments_facts:
  assumes "resolved_archetype player = Some arch"
  shows "length (compute_segments player) = length (stint_pattern arch) \<and>
         map seg_tag (compute_segments player) = stint_pattern arch \<and>
         compute_segments player \<noteq> [] \<and> seg_end (last (compute_segments player)) = 48"
proof -
  define durations where "durations =
    stint_durations (stint_pattern arch) (ensure_default_percentages player)
      (max 0 (min 48 (expected_minutes player)))
      (max 0 (48 - max 0 (min 48 (expected_minutes player))))"
  have len: "length durations = length (stint_pattern arch)"
    by (simp add: durations_def length_stint_durations)
  have cs: "compute_segments player =
      force_last_end (accumulate 0 (zip durations (stint_pattern arch)))"
    unfolding durations_def by (rule compute_segments_resolved [OF assms])
  let ?acc = "accumulate 0 (zip durations (stint_pattern arch))"
  have ne: "stint_pattern arch \<noteq> []" by (rule resolved_pattern_nonempty [OF assms])
  have lacc: "length ?acc = length (stint_pattern arch)" using len by (simp add: length_accumulate)
  have l: "length (compute_segments player) = length (stint_pattern arch)"
    unfolding cs by (simp add: length_force_last_end lacc)
  have tg: "map seg_tag (compute_segments player) = stint_pattern arch"
    unfolding cs using len by (simp add: tags_force_last_end tags_accumulate)
  have nonempty: "compute_segments player \<noteq> []" using l ne by auto
  have lst: "seg_end (last (compute_segments player)) = 48"
    unfolding cs using lacc ne by (intro last_force_last_end) auto
  from l tg nonempty lst show ?thesis by blast
qed

lemma seg_end_case: "(\<lambda>(_, e, _). e) = seg_end"
  by (auto simp: seg_end_def fun_eq_iff)

text \<open>
  Claim C2, as the code has it. When every segment but the last is at least
  \<open>max 0.001 min_gap\<close> long, \<open>compute_default_boundaries\<close> returns the ends of those
  segments unchanged, \<open>apply_boundaries\<close> keeps them, and the segments computed from
  the edited player are the segments computed before, exactly. The weights need not
  sum to 1 and \<open>expected_minutes\<close> need not be in range.
\<close>

theorem boundaries_round_trip:
  assumes res: "resolved_archetype player = Some arch"
    and spaced: "\<forall>sg\<in>set (butlast (compute_segments player)).
                   seg_start sg + max (1 / 1000) min_gap \<le> seg_end sg"
  shows "compute_default_boundaries player = map seg_end (butlast (compute_segments player)) \<and>
         compute_segments
           (apply_boundaries player (compute_default_boundaries player) min_gap) =
         compute_segments player"
proof -
  let ?segs = "compute_segments player" and ?pat = "stint_pattern arch"
  let ?L = "length ?pat"
  let ?es = "map seg_end (butlast ?segs)"
  let ?ds = "map seg_dur ?segs"
  let ?Ton = "group_total (on_indices ?pat) ?ds" and ?Toff = "group_total (off_indices ?pat) ?ds"
  note facts = compute_segments_facts [OF res]
  have ch: "chain 0 ?segs" by (rule compute_segments_chain)
  have len: "length ?segs = ?L" and tags: "map seg_tag ?segs = ?pat" and ne: "?segs \<noteq> []"
    and l48: "seg_end (last ?segs) = 48" using facts by blast+
  have chb: "chain 0 (butlast ?segs)" by (rule chain_butlast [OF ch])
  have pne: "?pat \<noteq> []" using len ne by auto
  have Les: "?L = Suc (length ?es)" using len ne by (cases ?segs) auto

  have sp1: "\<forall>sg\<in>set (butlast ?segs). seg_start sg + 1 / 1000 \<le> seg_end sg"
    using spaced by (auto simp: max_def split: if_splits)
  have cdb: "compute_default_boundaries player = ?es"
    using ne increasing_ends_chain [OF chb sp1]
    by (simp add: compute_default_boundaries_def seg_end_case)

  have gaps: "\<forall>k<length ?es. prev_end ?es k + min_gap \<le> ?es ! k"
  proof (intro allI impI)
    fix k assume k: "k < length ?es"
    then have kb: "k < length (butlast ?segs)" by simp
    then have "butlast ?segs ! k \<in> set (butlast ?segs)" by (rule nth_mem)
    with spaced have "seg_start (butlast ?segs ! k) + max (1 / 1000) min_gap
        \<le> seg_end (butlast ?segs ! k)" by blast
    then have "seg_start (butlast ?segs ! k) + min_gap \<le> seg_end (butlast ?segs ! k)" by simp
    then show "prev_end ?es k + min_gap \<le> ?es ! k"
      using kb by (simp add: prev_end_chain [OF chb kb])
  qed
  have cap: "\<forall>k<length ?es. ?es ! k \<le> 48"
  proof (intro allI impI)
    fix k assume k: "k < length ?es"
    then have kb: "k < length (butlast ?segs)" by simp
    then have "butlast ?segs ! k \<in> set (butlast ?segs)" by (rule nth_mem)
    from chain_set [OF chb this] show "?es ! k \<le> 48" using kb by simp
  qed
  have san: "sanitize_ends (\<lambda>x. x) ?L ?es min_gap = ?es"
    unfolding Les by (rule sanitize_ends_id [OF gaps cap])
  have bs: "boundary_segments (sanitize_ends (\<lambda>x. x) ?L ?es min_gap) = (map seg_start ?segs, map seg_end ?segs)"
    unfolding san by (rule boundary_segments_chain [OF ch ne l48])
  have ds: "map (\<lambda>i. max 0 (map seg_end ?segs ! i - map seg_start ?segs ! i)) [0..<?L] = ?ds"
  proof (rule nth_equalityI)
    show "length (map (\<lambda>i. max 0 (map seg_end ?segs ! i - map seg_start ?segs ! i)) [0..<?L]) =
        length ?ds" using len by simp
  next
    fix i assume "i < length (map (\<lambda>i. max 0 (map seg_end ?segs ! i - map seg_start ?segs ! i)) [0..<?L])"
    then have i: "i < length ?segs" using len by simp
    then have "0 \<le> seg_dur (?segs ! i)" using chain_dur_nonneg [OF ch] by simp
    then show "map (\<lambda>i. max 0 (map seg_end ?segs ! i - map seg_start ?segs ! i)) [0..<?L] ! i =
        ?ds ! i" using i len by (simp add: seg_dur_def)
  qed
  have dlen: "length ?ds = ?L" using len by simp
  have dnn: "\<forall>i<length ?ds. 0 \<le> ?ds ! i" using chain_dur_nonneg [OF ch] by simp
  have on_lt: "\<forall>i\<in>set (on_indices ?pat). i < length ?ds"
    unfolding dlen by (simp add: on_indices_set)
  have off_lt: "\<forall>i\<in>set (off_indices ?pat). i < length ?ds"
    unfolding dlen by (simp add: off_indices_set)
  have Ton0: "0 \<le> ?Ton" by (rule group_total_nonneg [OF dnn on_lt])
  have Toff0: "0 \<le> ?Toff" by (rule group_total_nonneg [OF dnn off_lt])
  have "sum_list ?ds = chain_end 0 ?segs - 0" by (rule chain_sum [OF ch])
  then have "sum_list ?ds = 48" using ne l48 by (simp add: chain_end_def)
  with group_totals_sum [OF dlen] have tot: "?Ton + ?Toff = 48" by simp
  have on'': "max 0 (min 48 ?Ton) = ?Ton" using Ton0 Toff0 tot by simp
  have off'': "max 0 (48 - ?Ton) = ?Toff" using Ton0 Toff0 tot by simp

  let ?p' = "player\<lparr>expected_minutes := ?Ton, stints_raw := reweigh ?pat ?ds\<rparr>"
  have "apply_boundaries player ?es min_gap =
      player\<lparr>expected_minutes := max 0 (min 48 ?Ton), stints_raw := reweigh ?pat ?ds\<rparr>"
    unfolding apply_boundaries_resolved [OF res pne bs ds] reweigh_def group_total_def ..
  then have ab: "apply_boundaries player ?es min_gap = ?p'" by (simp only: on'')
  have res': "resolved_archetype ?p' = Some arch"
    using res by (simp only: resolved_archetype_update)

  have rl: "length (stints_raw ?p') = ?L" by (simp add: reweigh_length)
  have el: "length (ensure_default_percentages ?p') = ?L"
    by (rule ensure_default_percentages_length [OF res' rl])
  have sd: "stint_durations ?pat (ensure_default_percentages ?p') ?Ton ?Toff = ?ds"
  proof (rule nth_equalityI)
    show "length (stint_durations ?pat (ensure_default_percentages ?p') ?Ton ?Toff) = length ?ds"
      by (simp only: length_stint_durations dlen)
  next
    fix i assume "i < length (stint_durations ?pat (ensure_default_percentages ?p') ?Ton ?Toff)"
    then have i: "i < ?L" by (simp only: length_stint_durations)
    note sdn = stint_durations_nth [OF i, of "ensure_default_percentages ?p'" ?Ton ?Toff]
    show "stint_durations ?pat (ensure_default_percentages ?p') ?Ton ?Toff ! i = ?ds ! i"
    proof (cases "?pat ! i = ''on''")
      case True
      then have mem: "i \<in> set (on_indices ?pat)" using i by (simp add: on_indices_set)
      show ?thesis
      proof (cases "0 < ?Ton")
        case pos: True
        have "group_total (on_indices ?pat) (reweigh ?pat ?ds) \<noteq> 0"
          using reweigh_on_sum [OF pos] by simp
        then have s: "sum_list (map (\<lambda>j. stints_raw ?p' ! j) (on_indices ?pat)) \<noteq> 0"
          by (simp add: group_total_def)
        have "ensure_default_percentages ?p' ! i = stints_raw ?p' ! i"
          by (rule ensure_default_percentages_keep_on [OF res' rl s i True])
        also have "\<dots> = ?ds ! i / ?Ton" using reweigh_on [OF i True, of ?ds] pos by simp
        finally have "ensure_default_percentages ?p' ! i * ?Ton = ?ds ! i" using pos by simp
        then show ?thesis unfolding sdn using i True pos el by simp
      next
        case False
        with Ton0 have z: "?Ton = 0" by simp
        have "?ds ! i = 0" by (rule group_total_zero [OF dnn on_lt z mem])
        then show ?thesis unfolding sdn using i True False by simp
      qed
    next
      case False
      then have mem: "i \<in> set (off_indices ?pat)" using i by (simp add: off_indices_set)
      show ?thesis
      proof (cases "0 < ?Toff")
        case pos: True
        have "group_total (off_indices ?pat) (reweigh ?pat ?ds) \<noteq> 0"
          using reweigh_off_sum [OF pos] by simp
        then have s: "sum_list (map (\<lambda>j. stints_raw ?p' ! j) (off_indices ?pat)) \<noteq> 0"
          by (simp add: group_total_def)
        have "ensure_default_percentages ?p' ! i = stints_raw ?p' ! i"
          by (rule ensure_default_percentages_keep_off [OF res' rl s i False])
        also have "\<dots> = ?ds ! i / ?Toff" using reweigh_off [OF i False, of ?ds] pos by simp
        finally have "ensure_default_percentages ?p' ! i * ?Toff = ?ds ! i" using pos by simp
        then show ?thesis unfolding sdn using i False pos el by simp
      next
        case neg: False
        with Toff0 have z: "?Toff = 0" by simp
        have "?ds ! i = 0" by (rule group_total_zero [OF dnn off_lt z mem])
        then show ?thesis unfolding sdn using i False neg by simp
      qed
    qed
  qed
  have em1: "max 0 (min 48 (expected_minutes ?p')) = ?Ton" by (simp add: on'')
  have em2: "max 0 (48 - ?Ton) = ?Toff" by (rule off'')
  have "compute_segments ?p' =
      force_last_end (accumulate 0 (zip (stint_durations ?pat (ensure_default_percentages ?p')
        (max 0 (min 48 (expected_minutes ?p')))
        (max 0 (48 - max 0 (min 48 (expected_minutes ?p'))))) ?pat))"
    by (rule compute_segments_resolved [OF res'])
  also have "\<dots> =
      force_last_end (accumulate 0 (zip (stint_durations ?pat (ensure_default_percentages ?p')
        ?Ton ?Toff) ?pat))"
    by (simp only: em1 em2)
  also have "\<dots> = force_last_end (accumulate 0 (zip ?ds (map seg_tag ?segs)))"
    by (simp only: sd tags)
  also have "\<dots> = force_last_end ?segs" by (simp only: accumulate_chain [OF ch])
  also have "\<dots> = ?segs" by (rule force_last_end_id [OF ne l48])
  finally have "compute_segments ?p' = ?segs" .
  with cdb ab show ?thesis by simp
qed

lemma uneven_segments_eval:
  "compute_segments
     (example_player (Some ''StarterCloserThreeStints'') 40 [1 / 2, 1 / 2, 1 / 4, 1 / 4, 0]) =
     [(0, 20, ''on''), (20, 24, ''off''), (24, 34, ''on''), (34, 36, ''off''), (36, 48, ''on'')]"
  by code_simp

lemma closer_round_trip_eval:
  "compute_segments
     (apply_boundaries (example_player (Some ''StarterCloserThreeStints'') 48 [1, 0, 0, 0, 0])
        (compute_default_boundaries
           (example_player (Some ''StarterCloserThreeStints'') 48 [1, 0, 0, 0, 0]))
        (1 / 1000)) =
     [(0, 47997 / 1000, ''on''), (47997 / 1000, 47998 / 1000, ''off''),
      (47998 / 1000, 47999 / 1000, ''on''), (47999 / 1000, 48, ''off''), (48, 48, ''on'')]"
  by code_simp

theorem boundaries_round_trip_witness:
  "resolved_archetype
     (example_player (Some ''StarterCloserThreeStints'') 40 [1 / 2, 1 / 2, 1 / 4, 1 / 4, 0]) =
     Some three_stints \<and>
   compute_default_boundaries
     (example_player (Some ''StarterCloserThreeStints'') 40 [1 / 2, 1 / 2, 1 / 4, 1 / 4, 0]) =
     [20, 24, 34, 36] \<and>
   compute_segments
     (apply_boundaries
        (example_player (Some ''StarterCloserThreeStints'') 40 [1 / 2, 1 / 2, 1 / 4, 1 / 4, 0])
        (compute_default_boundaries
           (example_player (Some ''StarterCloserThreeStints'') 40 [1 / 2, 1 / 2, 1 / 4, 1 / 4, 0]))
        (1 / 1000)) =
     [(0, 20, ''on''), (20, 24, ''off''), (24, 34, ''on''), (34, 36, ''off''), (36, 48, ''on'')]"
proof -
  let ?p = "example_player (Some ''StarterCloserThreeStints'') 40 [1 / 2, 1 / 2, 1 / 4, 1 / 4, 0]"
  have h: "resolved_archetype ?p = Some three_stints"
    by (simp add: resolved_archetype_def example_player_def lookup_three_stints)
  have sp: "\<forall>sg\<in>set (butlast (compute_segments ?p)).
      seg_start sg + max (1 / 1000) (1 / 1000) \<le> seg_end sg"
    by (simp add: uneven_segments_eval seg_start_def seg_end_def)
  note t = boundaries_round_trip [OF h sp]
  from t have "compute_default_boundaries ?p = map seg_end (butlast (compute_segments ?p))"
    by blast
  then have a: "compute_default_boundaries ?p = [20, 24, 34, 36]"
    by (simp add: uneven_segments_eval seg_end_def)
  from t have "compute_segments
      (apply_boundaries ?p (compute_default_boundaries ?p) (1 / 1000)) = compute_segments ?p"
    by blast
  then have b: "compute_segments
      (apply_boundaries ?p (compute_default_boundaries ?p) (1 / 1000)) =
      [(0, 20, ''on''), (20, 24, ''off''), (24, 34, ''on''), (34, 36, ''off''), (36, 48, ''on'')]"
    by (simp only: uneven_segments_eval)
  from h a b show ?thesis by blast
qed

text \<open>
  The claim as stated fails when segments are shorter than the gap: with
  \<open>expected_minutes = 48\<close> and weights \<open>[1, 0, 0, 0, 0]\<close> the first segment ends at 48
  before the edit and at 47.997 after it.
\<close>

theorem boundaries_round_trip_counterexample:
  "compute_segments (example_player (Some ''StarterCloserThreeStints'') 48 [1, 0, 0, 0, 0]) ! 0 =
     (0, 48, ''on'') \<and>
   compute_segments
     (apply_boundaries (example_player (Some ''StarterCloserThreeStints'') 48 [1, 0, 0, 0, 0])
        (compute_default_boundaries
           (example_player (Some ''StarterCloserThreeStints'') 48 [1, 0, 0, 0, 0]))
        (1 / 1000)) ! 0 = (0, 47997 / 1000, ''on'') \<and>
   1 / 1000000 <
     \<bar>seg_end (compute_segments
        (apply_boundaries (example_player (Some ''StarterCloserThreeStints'') 48 [1, 0, 0, 0, 0])
           (compute_default_boundaries
              (example_player (Some ''StarterCloserThreeStints'') 48 [1, 0, 0, 0, 0]))
           (1 / 1000)) ! 0) -
      seg_end (compute_segments
        (example_player (Some ''StarterCloserThreeStints'') 48 [1, 0, 0, 0, 0]) ! 0)\<bar>"
  by (simp add: closer_round_trip_eval closer_segments_eval seg_end_def)

end
